theory Spec2Isabelle
  imports Main
begin

section \<open>Strings of the JavaScript runtime\<close>

text \<open>
  The server (\<^verbatim>\<open>src/server/routes.ts\<close>) works on JavaScript strings. They are modelled
  as \<^typ>\<open>string\<close>, one \<^typ>\<open>char\<close> per code unit, for the code units 0 to 255.
  The functions of this section are the string methods and the fixed regular
  expressions that the server calls.
\<close>

definition charCode :: "char \<Rightarrow> nat" where
  "charCode c = of_char c"

text \<open>
  White space as \<^verbatim>\<open>\s\<close> and \<^verbatim>\<open>String.prototype.trim\<close> see it: tab, line feed,
  vertical tab, form feed, carriage return, space and the no-break space.
\<close>

definition isSpace :: "char \<Rightarrow> bool" where
  "isSpace c = (charCode c \<in> {9, 10, 11, 12, 13, 32, 160})"

text \<open>\<^verbatim>\<open>s.trim()\<close>\<close>

definition trim :: "string \<Rightarrow> string" where
  "trim s = rev (dropWhile isSpace (rev (dropWhile isSpace s)))"

text \<open>\<^verbatim>\<open>s.replace(/\s+/g, ' ')\<close>: every maximal run of white space becomes one space.\<close>

function collapseSpaces :: "string \<Rightarrow> string" where
  "collapseSpaces [] = []"
| "collapseSpaces (c # cs) =
     (if isSpace c then CHR '' '' # collapseSpaces (dropWhile isSpace cs)
      else c # collapseSpaces cs)"
  by pat_completeness auto
termination
  by (relation "measure length") (auto simp: length_dropWhile_le less_Suc_eq_le)

text \<open>\<^verbatim>\<open>s.replace(/\n/g, " ")\<close>\<close>

definition newlinesToSpaces :: "string \<Rightarrow> string" where
  "newlinesToSpaces s = map (\<lambda>c. if c = CHR 0x0A then CHR '' '' else c) s"

text \<open>
  \<^verbatim>\<open>s.substring(a, b)\<close>: both indices are clamped to the length, and swapped when the
  first is the larger.
\<close>

definition substring :: "string \<Rightarrow> nat \<Rightarrow> nat \<Rightarrow> string" where
  "substring s a b =
     (let a' = min a (length s); b' = min b (length s);
          lo = min a' b'; hi = max a' b'
      in take (hi - lo) (drop lo s))"

text \<open>\<^verbatim>\<open>s.indexOf(needle)\<close>, with \<open>None\<close> for -1, and \<^verbatim>\<open>s.includes(needle)\<close>.\<close>

fun startsWith :: "string \<Rightarrow> string \<Rightarrow> bool" where
  "startsWith s [] = True"
| "startsWith [] (n # ns) = False"
| "startsWith (c # cs) (n # ns) = (c = n \<and> startsWith cs ns)"

fun indexOf :: "string \<Rightarrow> string \<Rightarrow> nat option" where
  "indexOf [] needle = (if needle = [] then Some 0 else None)"
| "indexOf (c # cs) needle =
     (if startsWith (c # cs) needle then Some 0 else map_option Suc (indexOf cs needle))"

definition includesStr :: "string \<Rightarrow> string \<Rightarrow> bool" where
  "includesStr s needle = (indexOf s needle \<noteq> None)"

text \<open>The decimal text of a number, as a template literal renders a length or an index.\<close>

fun showNat :: "nat \<Rightarrow> string" where
  "showNat n =
     (if n < 10 then [''0123456789'' ! n]
      else showNat (n div 10) @ [''0123456789'' ! (n mod 10)])"

declare showNat.simps [simp del]

section \<open>Regular expressions built from the keyword\<close>

text \<open>
  \<^verbatim>\<open>keyword.replace(/[.*+?^${}()|[\]\\]/g, '\\$&')\<close> puts a backslash before each of
  the fourteen characters of the class. They are the syntax characters of the pattern
  grammar.
\<close>

definition backslash :: char where
  "backslash = CHR 0x5C"

definition syntaxChars :: "char list" where
  "syntaxChars = ''.*+?^${}()|[]'' @ [backslash]"

definition isSyntaxChar :: "char \<Rightarrow> bool" where
  "isSyntaxChar c = (c \<in> set syntaxChars)"

definition escapeKeyword :: "string \<Rightarrow> string" where
  "escapeKeyword keyword =
     concat (map (\<lambda>c. if isSyntaxChar c then [backslash, c] else [c]) keyword)"

text \<open>
  \<^verbatim>\<open>new RegExp(source, 'gi')\<close>, for the sources that are a sequence of single-character
  atoms: a character that is not a syntax character stands for itself, a backslash
  followed by a syntax character stands for that character, and an unescaped dot stands
  for any character but a line terminator. Every other source (quantifiers, groups,
  classes, alternatives, anchors, other escapes, a backslash at the end) is outside
  this fragment, and \<open>newRegExp\<close> returns \<open>None\<close> for it.
\<close>

datatype atom = Lit char | AnyChar

type_synonym regexp = "atom list"

fun newRegExp :: "string \<Rightarrow> regexp option" where
  "newRegExp [] = Some []"
| "newRegExp [c] =
     (if c = CHR ''.'' then Some [AnyChar]
      else if isSyntaxChar c then None
      else Some [Lit c])"
| "newRegExp (c # d # ds) =
     (if c = backslash then
        (if isSyntaxChar d then map_option (Cons (Lit d)) (newRegExp ds) else None)
      else if c = CHR ''.'' then map_option (Cons AnyChar) (newRegExp (d # ds))
      else if isSyntaxChar c then None
      else map_option (Cons (Lit c)) (newRegExp (d # ds)))"

text \<open>
  The flag \<^verbatim>\<open>i\<close> compares characters after Canonicalize, which upper-cases one code
  unit at a time: the letters a to z, and the Latin-1 letters 0xE0 to 0xFE other than
  the division sign 0xF7. The two code units below 256 whose upper case lies above 255
  (0xB5 and 0xFF) are equivalent to no other code unit below 256, so they stay.
  \<open>canonicalize\<close> returns the code unit of the canonical character.
\<close>

definition canonicalize :: "char \<Rightarrow> nat" where
  "canonicalize c =
     (let n = charCode c in
      if (97 \<le> n \<and> n \<le> 122) \<or> (224 \<le> n \<and> n \<le> 254 \<and> n \<noteq> 247)
      then n - 32 else n)"

definition isLineTerminator :: "char \<Rightarrow> bool" where
  "isLineTerminator c = (charCode c \<in> {10, 13})"

fun atomMatches :: "atom \<Rightarrow> char \<Rightarrow> bool" where
  "atomMatches (Lit p) c = (canonicalize p = canonicalize c)"
| "atomMatches AnyChar c = (\<not> isLineTerminator c)"

text \<open>Does the pattern match at the start of the string?\<close>

fun matchHere :: "regexp \<Rightarrow> string \<Rightarrow> bool" where
  "matchHere [] s = True"
| "matchHere (p # ps) [] = False"
| "matchHere (p # ps) (c # cs) = (atomMatches p c \<and> matchHere ps cs)"

text \<open>The first position of the string where the pattern matches.\<close>

fun search :: "regexp \<Rightarrow> string \<Rightarrow> nat option" where
  "search re [] = (if matchHere re [] then Some 0 else None)"
| "search re (c # cs) =
     (if matchHere re (c # cs) then Some 0 else map_option Suc (search re cs))"

text \<open>
  \<^verbatim>\<open>re.exec(s)\<close> of a global pattern whose \<^verbatim>\<open>lastIndex\<close> is \<open>lastIndex\<close>: the search
  starts there and fails when \<^verbatim>\<open>lastIndex\<close> is beyond the end. The result is
  \<^verbatim>\<open>match.index\<close>; on success \<^verbatim>\<open>lastIndex\<close> becomes the end of the match, which is
  \<^verbatim>\<open>match.index\<close> plus the number of atoms.
\<close>

definition exec :: "regexp \<Rightarrow> string \<Rightarrow> nat \<Rightarrow> nat option" where
  "exec re s lastIndex =
     (if length s < lastIndex then None
      else map_option (\<lambda>k. lastIndex + k) (search re (drop lastIndex s)))"

lemma matchHere_length: "matchHere re s \<Longrightarrow> length re \<le> length s"
  by (induction re s rule: matchHere.induct) auto

lemma search_Some:
  "search re s = Some k \<Longrightarrow> k \<le> length s \<and> matchHere re (drop k s)"
  by (induction s arbitrary: k) (auto split: if_splits)

lemma exec_Some:
  assumes "exec re s lastIndex = Some index"
  shows "lastIndex \<le> index" and "index + length re \<le> length s"
    and "matchHere re (drop index s)"
proof -
  from assms obtain k where le: "lastIndex \<le> length s"
    and k: "search re (drop lastIndex s) = Some k" and idx: "index = lastIndex + k"
    by (auto simp: exec_def split: if_splits)
  from search_Some [OF k] have kl: "k \<le> length s - lastIndex"
    and m: "matchHere re (drop k (drop lastIndex s))" by simp_all
  show "lastIndex \<le> index" using idx by simp
  from m have m': "matchHere re (drop index s)" by (simp add: idx add.commute)
  then show "matchHere re (drop index s)" .
  from matchHere_length [OF m'] kl le idx show "index + length re \<le> length s" by simp
qed

text \<open>
  The comment pattern \<^verbatim>\<open>/<!--([\s\S]*?)-->/g\<close>: \<^verbatim>\<open>commentRegex.exec(s)\<close> finds the
  first \<^verbatim>\<open><!--\<close> at or after \<^verbatim>\<open>lastIndex\<close>, and the lazy group stops at the first
  \<^verbatim>\<open>-->\<close> that follows it. When no \<^verbatim>\<open>-->\<close> follows the first opener, none follows
  a later one, and the search fails. The result is \<^verbatim>\<open>match.index\<close>, the group
  \<^verbatim>\<open>match[1]\<close> and the new \<^verbatim>\<open>lastIndex\<close>.
\<close>

definition commentExec :: "string \<Rightarrow> nat \<Rightarrow> (nat \<times> string \<times> nat) option" where
  "commentExec s lastIndex =
     (if length s < lastIndex then None
      else case indexOf (drop lastIndex s) ''<!--'' of
        None \<Rightarrow> None
      | Some a \<Rightarrow>
          (let bodyStart = lastIndex + a + 4 in
           case indexOf (drop bodyStart s) ''-->'' of
             None \<Rightarrow> None
           | Some b \<Rightarrow> Some (lastIndex + a, take b (drop bodyStart s), bodyStart + b + 3)))"

lemma startsWith_length: "startsWith s n \<Longrightarrow> length n \<le> length s"
  by (induction s n rule: startsWith.induct) auto

lemma indexOf_Some:
  "indexOf s n = Some k \<Longrightarrow> k + length n \<le> length s \<and> startsWith (drop k s) n"
proof (induction s arbitrary: k)
  case Nil
  then show ?case by (auto split: if_splits)
next
  case (Cons c cs)
  show ?case
  proof (cases "startsWith (c # cs) n")
    case True
    with Cons.prems startsWith_length [OF True] show ?thesis by simp
  next
    case False
    with Cons.prems obtain j where "indexOf cs n = Some j" "k = Suc j" by auto
    with Cons.IH [of j] show ?thesis by simp
  qed
qed

lemma commentExec_Some:
  assumes "commentExec s lastIndex = Some (index, comment, lastIndex')"
  shows "lastIndex \<le> index" and "index + 7 \<le> lastIndex'" and "lastIndex' \<le> length s"
proof -
  from assms obtain a b where le: "lastIndex \<le> length s"
    and a: "indexOf (drop lastIndex s) ''<!--'' = Some a"
    and b: "indexOf (drop (lastIndex + a + 4) s) ''-->'' = Some b"
    and i: "index = lastIndex + a" and l: "lastIndex' = lastIndex + a + 4 + b + 3"
    by (auto simp: commentExec_def Let_def split: if_splits option.splits)
  show "lastIndex \<le> index" using i by simp
  show "index + 7 \<le> lastIndex'" using i l by simp
  from indexOf_Some [OF a] have "a + length ''<!--'' \<le> length (drop lastIndex s)" by blast
  then have a4: "lastIndex + a + 4 \<le> length s" using le by simp
  from indexOf_Some [OF b] have "b + length ''-->'' \<le> length (drop (lastIndex + a + 4) s)"
    by blast
  then have "b + 3 \<le> length s - (lastIndex + a + 4)" by simp
  with a4 l show "lastIndex' \<le> length s" by arith
qed

section \<open>Values read from the index\<close>

text \<open>
  The body of the index's response is parsed by \<^verbatim>\<open>response.json()\<close>, and nothing
  checks the parts of the result against the interface \<^verbatim>\<open>Snapshot\<close>: a field holds
  whatever the response held. A number is represented by the text that a template
  literal renders for it; the server computes nothing from a number of the response.
  \<open>JUndefined\<close> is what reading a missing element gives.
\<close>

datatype jsval =
    JUndefined
  | JNull
  | JBool bool
  | JNum string
  | JStr string
  | JArr "jsval list"
  | JObj "(string \<times> jsval) list"

text \<open>The errors that a call of the server can raise.\<close>

datatype error = NetworkError | TimeoutError | HttpError nat | SyntaxError | TypeError

text \<open>\<^verbatim>\<open>parts.join(sep)\<close>\<close>

fun joinWith :: "string \<Rightarrow> string list \<Rightarrow> string" where
  "joinWith sep [] = []"
| "joinWith sep [x] = x"
| "joinWith sep (x # y # ys) = x @ sep @ joinWith sep (y # ys)"

text \<open>The results of a list of conversions, or the first error among them.\<close>

fun collect :: "(error + 'a) list \<Rightarrow> error + 'a list" where
  "collect [] = Inr []"
| "collect (x # xs) =
     (case x of
        Inl e \<Rightarrow> Inl e
      | Inr v \<Rightarrow> (case collect xs of Inl e \<Rightarrow> Inl e | Inr vs \<Rightarrow> Inr (v # vs)))"

text \<open>
  The text of a value inside a template literal: \<^verbatim>\<open>`${v}`\<close>. An array joins the texts
  of its elements, with the empty text for \<^verbatim>\<open>null\<close> and \<^verbatim>\<open>undefined\<close>. An object
  parsed from JSON holds no function: when it has a key \<^verbatim>\<open>toString\<close> of its own,
  neither that value nor \<^verbatim>\<open>valueOf\<close> gives a primitive and the conversion raises a
  \<^verbatim>\<open>TypeError\<close>; otherwise it is \<^verbatim>\<open>[object Object]\<close>.
\<close>

fun toStr :: "jsval \<Rightarrow> error + string" where
  "toStr JUndefined = Inr ''undefined''"
| "toStr JNull = Inr ''null''"
| "toStr (JBool b) = Inr (if b then ''true'' else ''false'')"
| "toStr (JNum n) = Inr n"
| "toStr (JStr s) = Inr s"
| "toStr (JArr xs) =
     (case collect (map (\<lambda>x. if x = JNull \<or> x = JUndefined then Inr [] else toStr x) xs) of
        Inl e \<Rightarrow> Inl e
      | Inr parts \<Rightarrow> Inr (joinWith '','' parts))"
| "toStr (JObj kvs) =
     (if ''toString'' \<in> set (map fst kvs) then Inl TypeError else Inr ''[object Object]'')"

record snapshot =
  timestamp :: jsval
  original :: jsval

section \<open>Matches and the extractor\<close>

datatype match_type = TEXT | JS | COMMENT

record scan_match =
  timestamp :: jsval
  archiveUrl :: string
  matchType :: match_type
  snippet :: string

text \<open>
  What \<open>extractData\<close> reads from the parsed page, after the two \<^verbatim>\<open>remove()\<close> calls
  that strip the archive's toolbar and scripts: \<^verbatim>\<open>$("body").text()\<close>, the
  \<^verbatim>\<open>$(script).html()\<close> of every script element in document order, and \<^verbatim>\<open>$.html()\<close>.
  The text of the body is the text of all that the body holds, the text of a script or
  a style sheet inside the body included, and no comment. A script without content has
  the empty string. The parser is the library cheerio; the extractor takes it as the
  parameter \<open>cheerio\<close>, from the markup to these three views.
\<close>

record document =
  bodyText :: string
  scripts :: "string list"
  htmlString :: string

text \<open>The snippet expressions of the three zones.\<close>

definition textSnippet :: "string \<Rightarrow> string \<Rightarrow> nat \<Rightarrow> string" where
  "textSnippet textContent keyword index =
     (let start = max 0 (index - 30);
          end' = min (length textContent) (index + length keyword + 30)
      in ''...'' @ newlinesToSpaces (substring textContent start end') @ ''...'')"

definition jsSnippet :: "string \<Rightarrow> string \<Rightarrow> nat \<Rightarrow> string" where
  "jsSnippet scriptContent keyword index =
     (let start = max 0 (index - 30);
          end' = min (length scriptContent) (index + length keyword + 30)
      in ''...'' @ trim (newlinesToSpaces (substring scriptContent start end')) @ ''...'')"

definition commentSnippet :: "string \<Rightarrow> string \<Rightarrow> nat \<Rightarrow> string" where
  "commentSnippet comment keyword index =
     (let start = max 0 (index - 30);
          end' = min (length comment) (index + length keyword + 30)
      in ''...'' @ trim (substring comment start end') @ ''...'')"

definition mkMatch ::
  "match_type \<Rightarrow> (string \<Rightarrow> string \<Rightarrow> nat \<Rightarrow> string) \<Rightarrow> string \<Rightarrow> string \<Rightarrow> jsval \<Rightarrow> string
     \<Rightarrow> nat \<Rightarrow> scan_match" where
  "mkMatch ty snip zone keyword ts url index =
     \<lparr>scan_match.timestamp = ts, archiveUrl = url, matchType = ty,
      snippet = snip zone keyword index\<rparr>"

text \<open>
  The three \<^verbatim>\<open>while ((match = pattern.exec(zone)) !== null)\<close> loops have the same
  body but for the snippet and the match type: push the match made from
  \<^verbatim>\<open>match.index\<close>, then step over a zero-width match. \<open>mk\<close> makes the match that
  the zone pushes.
\<close>

function matchLoop ::
  "regexp \<Rightarrow> string \<Rightarrow> (nat \<Rightarrow> scan_match) \<Rightarrow> nat \<Rightarrow> scan_match list \<Rightarrow> scan_match list" where
  "matchLoop re zone mk lastIndex matches =
     (case exec re zone lastIndex of
        None \<Rightarrow> matches
      | Some index \<Rightarrow>
          (let matches' = matches @ [mk index];
               lastIndex' = index + length re;
               lastIndex'' = (if index = lastIndex' then lastIndex' + 1 else lastIndex')
           in matchLoop re zone mk lastIndex'' matches'))"
  by pat_completeness auto
termination
proof (relation "measure (\<lambda>(re, zone, mk, lastIndex, matches). Suc (length zone) - lastIndex)")
  show "wf (measure (\<lambda>(re, zone, mk, lastIndex, matches). Suc (length zone) - lastIndex))"
    by simp
next
  fix re :: regexp and zone :: string and mk :: "nat \<Rightarrow> scan_match"
    and lastIndex index lastIndex' lastIndex'' :: nat and matches matches' :: "scan_match list"
  assume ex: "exec re zone lastIndex = Some index"
    and l': "lastIndex' = index + length re"
    and l'': "lastIndex'' = (if index = lastIndex' then lastIndex' + 1 else lastIndex')"
  from exec_Some [OF ex] have "lastIndex \<le> index" "index + length re \<le> length zone"
    by simp_all
  with l' l'' have "lastIndex < lastIndex''" "lastIndex \<le> length zone"
    by (cases re; simp)+
  then show "((re, zone, mk, lastIndex'', matches'), (re, zone, mk, lastIndex, matches))
      \<in> measure (\<lambda>(re, zone, mk, lastIndex, matches). Suc (length zone) - lastIndex)"
    by simp
qed

declare matchLoop.simps [simp del]

text \<open>\<^verbatim>\<open>$("script").each(...)\<close>: a fresh pattern for every script whose body is not empty.\<close>

fun eachScript ::
  "regexp \<Rightarrow> string \<Rightarrow> jsval \<Rightarrow> string \<Rightarrow> string list \<Rightarrow> scan_match list \<Rightarrow> scan_match list" where
  "eachScript re keyword ts url [] matches = matches"
| "eachScript re keyword ts url (scriptContent # rest) matches =
     eachScript re keyword ts url rest
       (if scriptContent \<noteq> []
        then matchLoop re scriptContent (mkMatch JS jsSnippet scriptContent keyword ts url) 0 matches
        else matches)"

text \<open>
  The loop over the comments of the serialized page; a comment that holds the archive's
  marker is skipped by \<^verbatim>\<open>continue\<close>.
\<close>

function commentLoop ::
  "regexp \<Rightarrow> string \<Rightarrow> jsval \<Rightarrow> string \<Rightarrow> string \<Rightarrow> nat \<Rightarrow> scan_match list \<Rightarrow> scan_match list" where
  "commentLoop re keyword ts url html lastIndex matches =
     (case commentExec html lastIndex of
        None \<Rightarrow> matches
      | Some (index, comment, lastIndex') \<Rightarrow>
          if includesStr comment ''FILE ARCHIVED ON''
          then commentLoop re keyword ts url html lastIndex' matches
          else commentLoop re keyword ts url html lastIndex'
                 (matchLoop re comment (mkMatch COMMENT commentSnippet comment keyword ts url) 0 matches))"
  by pat_completeness auto
termination
proof (relation "measure (\<lambda>(re, keyword, ts, url, html, lastIndex, matches). Suc (length html) - lastIndex)",
    goal_cases)
  case 1
  show ?case by simp
next
  case (2 re keyword ts url html lastIndex matches x2 index y comment lastIndex')
  then have "commentExec html lastIndex = Some (index, comment, lastIndex')" by simp
  from commentExec_Some [OF this] show ?case by simp
next
  case (3 re keyword ts url html lastIndex matches x2 index y comment lastIndex')
  then have "commentExec html lastIndex = Some (index, comment, lastIndex')" by simp
  from commentExec_Some [OF this] show ?case by simp
qed

declare commentLoop.simps [simp del]

text \<open>The three zones, searched in turn with the pattern \<open>re\<close>; \<open>matches\<close> starts empty.\<close>

definition scanZones :: "regexp \<Rightarrow> document \<Rightarrow> string \<Rightarrow> jsval \<Rightarrow> string \<Rightarrow> scan_match list" where
  "scanZones re doc keyword ts url =
     (let textContent = trim (collapseSpaces (bodyText doc));
          matches = matchLoop re textContent
                      (mkMatch TEXT textSnippet textContent keyword ts url) 0 [];
          matches = eachScript re keyword ts url (scripts doc) matches;
          matches = commentLoop re keyword ts url (htmlString doc) 0 matches
      in matches)"

text \<open>
  \<open>extractData\<close>. The three zones build their pattern from the same source and flags,
  so it is built once here. A source that \<open>newRegExp\<close> does not take makes the
  result \<open>None\<close>.
\<close>

definition extractData ::
  "(string \<Rightarrow> document) \<Rightarrow> string \<Rightarrow> string \<Rightarrow> jsval \<Rightarrow> string \<Rightarrow> scan_match list option" where
  "extractData cheerio html keyword ts url =
     (let doc = cheerio html;
          escapedKeyword = escapeKeyword keyword
      in case newRegExp escapedKeyword of
           None \<Rightarrow> None
         | Some re \<Rightarrow> Some (scanZones re doc keyword ts url))"

section \<open>The index client\<close>

text \<open>
  A response of \<^verbatim>\<open>fetch\<close>: \<^verbatim>\<open>response.ok\<close>, \<^verbatim>\<open>response.status\<close>, and what reading the
  body gives (\<^verbatim>\<open>response.json()\<close> for the index, \<^verbatim>\<open>response.text()\<close> for a page),
  which is an error when the body cannot be read or parsed. \<^verbatim>\<open>fetch\<close> itself gives an
  error when the request fails or the timeout signal of 60000 ms aborts it.
\<close>

datatype 'b response = Response (ok: bool) (status: nat) (payload: "error + 'b")

text \<open>
  \<^verbatim>\<open>([timestamp, original]) => ({timestamp, original})\<close>: the row is iterated, so an
  array gives its first two elements and a string its first two characters; a missing
  one is \<^verbatim>\<open>undefined\<close>. Any other row is not iterable and raises a \<^verbatim>\<open>TypeError\<close>.
\<close>

definition element :: "jsval list \<Rightarrow> nat \<Rightarrow> jsval" where
  "element xs i = (if i < length xs then xs ! i else JUndefined)"

fun toSnapshot :: "jsval \<Rightarrow> error + snapshot" where
  "toSnapshot (JArr xs) =
     Inr \<lparr>snapshot.timestamp = element xs 0, original = element xs 1\<rparr>"
| "toSnapshot (JStr s) =
     Inr \<lparr>snapshot.timestamp = element (map (\<lambda>c. JStr [c]) s) 0,
          original = element (map (\<lambda>c. JStr [c]) s) 1\<rparr>"
| "toSnapshot v = Inl TypeError"

text \<open>\<^verbatim>\<open>rows.map(...)\<close>: the first row that raises ends the whole call.\<close>

fun mapRows :: "jsval list \<Rightarrow> error + snapshot list" where
  "mapRows [] = Inr []"
| "mapRows (row # rows) =
     (case toSnapshot row of
        Inl e \<Rightarrow> Inl e
      | Inr s \<Rightarrow> (case mapRows rows of Inl e \<Rightarrow> Inl e | Inr ss \<Rightarrow> Inr (s # ss)))"

text \<open>
  The query parameters. \<^verbatim>\<open>if (year)\<close> holds for a year that is given and not empty.
  The handler always passes the limit, so its default value is not modelled.
  \<open>showNat\<close> is the text of \<^verbatim>\<open>limit.toString()\<close> for a limit below \<^verbatim>\<open>1e21\<close>, where the
  text of a number is its decimal text; a larger limit is outside this model.
\<close>

definition queryParams :: "string \<Rightarrow> string option \<Rightarrow> nat \<Rightarrow> (string \<times> string) list" where
  "queryParams domain year limit =
     [(''url'', domain), (''output'', ''json''), (''fl'', ''timestamp,original''),
      (''filter'', ''statuscode:200''), (''limit'', showNat limit)] @
     (case year of
        None \<Rightarrow> []
      | Some y \<Rightarrow> if y \<noteq> [] then [(''from'', y @ ''0101''), (''to'', y @ ''1231'')] else [])"

text \<open>The body of the \<^verbatim>\<open>try\<close> block of \<open>fetchSnapshots\<close>.\<close>

definition fetchSnapshotsTry ::
  "((string \<times> string) list \<Rightarrow> error + jsval response) \<Rightarrow> string \<Rightarrow> string option \<Rightarrow> nat
     \<Rightarrow> error + snapshot list" where
  "fetchSnapshotsTry fetch domain year limit =
     (case fetch (queryParams domain year limit) of
        Inl e \<Rightarrow> Inl e
      | Inr response \<Rightarrow>
          if \<not> ok response then Inl (HttpError (status response))
          else case payload response of
                 Inl e \<Rightarrow> Inl e
               | Inr data \<Rightarrow>
                   (case data of
                      JArr rows \<Rightarrow> if length rows \<le> 1 then Inr [] else mapRows (drop 1 rows)
                    | _ \<Rightarrow> Inr []))"

text \<open>
  \<open>fetchSnapshots\<close>: the \<^verbatim>\<open>catch\<close> clause turns every error of the block into the
  empty list. \<open>Inl\<close> would be an error that reaches the caller.
\<close>

definition fetchSnapshots ::
  "((string \<times> string) list \<Rightarrow> error + jsval response) \<Rightarrow> string \<Rightarrow> string option \<Rightarrow> nat
     \<Rightarrow> error + snapshot list" where
  "fetchSnapshots fetch domain year limit =
     (case fetchSnapshotsTry fetch domain year limit of
        Inl e \<Rightarrow> Inr []
      | Inr snapshots \<Rightarrow> Inr snapshots)"

section \<open>The scan\<close>

text \<open>The events of the stream, one constructor for each \<^verbatim>\<open>type\<close> of \<^verbatim>\<open>ScanProgress\<close>.\<close>

datatype scan_event =
    Progress (message: string) (currentSnapshot: "nat option") (totalSnapshots: "nat option")
  | Match scan_match
  | Complete string
  | Error error

text \<open>
  The response stream: the events written so far, and whether \<^verbatim>\<open>res.end()\<close> was
  called.
\<close>

record res =
  written :: "scan_event list"
  ended :: bool

definition sendProgress :: "res \<Rightarrow> scan_event \<Rightarrow> res" where
  "sendProgress r data = r\<lparr>written := written r @ [data]\<rparr>"

definition endStream :: "res \<Rightarrow> res" where
  "endStream r = r\<lparr>ended := True\<rparr>"

text \<open>\<^verbatim>\<open>for (const match of matches) sendProgress({type: "match", match})\<close>\<close>

fun sendMatches :: "res \<Rightarrow> scan_match list \<Rightarrow> res" where
  "sendMatches r [] = r"
| "sendMatches r (m # ms) = sendMatches (sendProgress r (Match m)) ms"

text \<open>
  The inner \<^verbatim>\<open>try\<close> block of one iteration, after the polite delay: the result is
  the new \<^verbatim>\<open>foundAny\<close> and the stream. An error of the fetch, of reading the body or of
  the extractor is caught and the loop continues; a response that is not \<^verbatim>\<open>ok\<close>
  is passed over.
\<close>

definition scanSnapshot ::
  "(nat \<Rightarrow> string \<Rightarrow> error + string response) \<Rightarrow> (string \<Rightarrow> document) \<Rightarrow> string \<Rightarrow> nat
     \<Rightarrow> jsval \<Rightarrow> string \<Rightarrow> bool \<Rightarrow> res \<Rightarrow> bool \<times> res" where
  "scanSnapshot fetch cheerio searchKeyword i ts url foundAny r =
     (case fetch i url of
        Inl e \<Rightarrow> (foundAny, r)
      | Inr response \<Rightarrow>
          if ok response then
            (case payload response of
               Inl e \<Rightarrow> (foundAny, r)
             | Inr html \<Rightarrow>
                 (case extractData cheerio html searchKeyword ts url of
                    None \<Rightarrow> (foundAny, r)
                  | Some matches \<Rightarrow>
                      if length matches > 0 then (True, sendMatches r matches)
                      else (foundAny, r)))
          else (foundAny, r))"

text \<open>
  The loop over the snapshots, from iteration \<open>i\<close> on the snapshots that remain.
  \<open>clientConnected i\<close> is the value of the flag \<^verbatim>\<open>clientConnected\<close> when iteration \<open>i\<close>
  reads it, \<open>fetch i\<close> is the request of iteration \<open>i\<close>, and \<open>n\<close> is
  \<^verbatim>\<open>snapshots.length\<close>. \<open>Disconnected\<close> is the \<^verbatim>\<open>return\<close> of the handler on a
  closed connection. The two template literals that render the timestamp and the
  original URL stand outside the inner \<^verbatim>\<open>try\<close> block: an error of theirs leaves the
  loop for the outer \<^verbatim>\<open>catch\<close>, which is \<open>Raised\<close>. The polite delay before each
  request changes no value and is left out.
\<close>

datatype loop_result = Disconnected res | Raised error res | Finished bool res

fun forLoop ::
  "(nat \<Rightarrow> bool) \<Rightarrow> (nat \<Rightarrow> string \<Rightarrow> error + string response) \<Rightarrow> (string \<Rightarrow> document)
     \<Rightarrow> string \<Rightarrow> nat \<Rightarrow> snapshot list \<Rightarrow> nat \<Rightarrow> bool \<Rightarrow> res \<Rightarrow> loop_result" where
  "forLoop clientConnected fetch cheerio searchKeyword n [] i foundAny r =
     Finished foundAny r"
| "forLoop clientConnected fetch cheerio searchKeyword n (s # rest) i foundAny r =
     (if \<not> clientConnected i then Disconnected r
      else
        (let ts = snapshot.timestamp s in
         case toStr ts of
           Inl e \<Rightarrow> Raised e r
         | Inr tsText \<Rightarrow>
             (case toStr (original s) of
                Inl e \<Rightarrow> Raised e r
              | Inr originalText \<Rightarrow>
                  (let archiveUrl = ''https://web.archive.org/web/'' @ tsText @ ''/'' @ originalText;
                       r = sendProgress r
                             (Progress (''Scanning snapshot: '' @ tsText @ ''...'')
                                (Some (i + 1)) (Some n));
                       (foundAny, r) =
                         scanSnapshot fetch cheerio searchKeyword i ts archiveUrl foundAny r
                   in forLoop clientConnected fetch cheerio searchKeyword n rest (i + 1)
                        foundAny r))))"

text \<open>
  The handler of \<^verbatim>\<open>/api/scan\<close> once the parameters are validated. The outer
  \<^verbatim>\<open>catch\<close> sends the error and falls through to \<^verbatim>\<open>res.end()\<close>.
\<close>

definition scan ::
  "(nat \<Rightarrow> bool) \<Rightarrow> ((string \<times> string) list \<Rightarrow> error + jsval response)
     \<Rightarrow> (nat \<Rightarrow> string \<Rightarrow> error + string response) \<Rightarrow> (string \<Rightarrow> document)
     \<Rightarrow> string \<Rightarrow> string option \<Rightarrow> string \<Rightarrow> nat \<Rightarrow> res" where
  "scan clientConnected fetchIndex fetch cheerio targetDomain targetYear searchKeyword snapshotLimit =
     (let r = \<lparr>written = [], ended = False\<rparr>;
          r = sendProgress r
                (Progress (''Contacting Wayback Machine for: '' @ targetDomain @ ''...'') None None)
      in case fetchSnapshots fetchIndex targetDomain targetYear snapshotLimit of
           Inl e \<Rightarrow> endStream (sendProgress r (Error e))
         | Inr snapshots \<Rightarrow>
             if length snapshots = 0 then
               endStream (sendProgress r (Complete ''No snapshots found for this criteria.''))
             else
               (let r = sendProgress r
                          (Progress (''Analyzing '' @ showNat (length snapshots)
                                       @ '' snapshots for '' @ [CHR 0x27] @ searchKeyword
                                       @ [CHR 0x27] @ ''...'')
                             (Some 0) (Some (length snapshots)))
                in case forLoop clientConnected fetch cheerio searchKeyword (length snapshots)
                          snapshots 0 False r of
                     Disconnected r \<Rightarrow> r
                   | Raised e r \<Rightarrow> endStream (sendProgress r (Error e))
                   | Finished foundAny r \<Rightarrow>
                       endStream (sendProgress r
                         (Complete (if foundAny then ''Scan complete.''
                                    else ''Scan finished. No matches found.'')))))"

section \<open>Notions used to state the claims\<close>

subsection \<open>Occurrences of the keyword\<close>

text \<open>The keyword stands at the start of \<open>s\<close>, up to the case of letters.\<close>

definition literalHere :: "string \<Rightarrow> string \<Rightarrow> bool" where
  "literalHere keyword s =
     (length keyword \<le> length s \<and>
      map canonicalize (take (length keyword) s) = map canonicalize keyword)"



text \<open>The values of \<^verbatim>\<open>match.index\<close> in the successive iterations of a zone's loop.\<close>

function matchIndices :: "regexp \<Rightarrow> string \<Rightarrow> nat \<Rightarrow> nat list" where
  "matchIndices re zone lastIndex =
     (case exec re zone lastIndex of
        None \<Rightarrow> []
      | Some index \<Rightarrow>
          index # matchIndices re zone
                    (if index = index + length re then index + length re + 1
                     else index + length re))"
  by pat_completeness auto
termination
proof (relation "measure (\<lambda>(re, zone, lastIndex). Suc (length zone) - lastIndex)", goal_cases)
  case 1
  show ?case by simp
next
  case (2 re zone lastIndex index)
  from exec_Some [OF 2] have "lastIndex \<le> index" "index + length re \<le> length zone"
    by simp_all
  then show ?case by (cases re; simp)
qed

declare matchIndices.simps [simp del]

subsection \<open>Comments of the serialized page\<close>

text \<open>
  The comments that the loop of \<open>commentLoop\<close> visits, each with the position of its
  \<^verbatim>\<open><!--\<close> in the page, and their bodies. An archive comment is one that holds the
  marker of the archive.
\<close>

function commentSpans :: "string \<Rightarrow> nat \<Rightarrow> (nat \<times> string) list" where
  "commentSpans html lastIndex =
     (case commentExec html lastIndex of
        None \<Rightarrow> []
      | Some (index, comment, lastIndex') \<Rightarrow> (index, comment) # commentSpans html lastIndex')"
  by pat_completeness auto
termination
proof (relation "measure (\<lambda>(html, lastIndex). Suc (length html) - lastIndex)", goal_cases)
  case 1
  show ?case by simp
next
  case (2 html lastIndex x2 index y comment lastIndex')
  then have "commentExec html lastIndex = Some (index, comment, lastIndex')" by simp
  from commentExec_Some [OF this] show ?case by simp
qed

declare commentSpans.simps [simp del]

definition commentBodies :: "string \<Rightarrow> string list" where
  "commentBodies html = map snd (commentSpans html 0)"

definition isArchiveComment :: "string \<Rightarrow> bool" where
  "isArchiveComment comment = includesStr comment ''FILE ARCHIVED ON''"

subsection \<open>Literal search\<close>

text \<open>
  The search that the claims describe, with no pattern: \<open>firstLiteral\<close> is the first
  position where the keyword stands up to the case of letters, \<open>literalPositions\<close> are
  the positions that a search finds when it starts again behind each occurrence found
  (one position further for the empty keyword), and \<open>literalMatches\<close> are the matches of
  this search in the text zone, in every script that is not empty, and in every comment
  that does not hold the marker of the archive.
\<close>

fun firstLiteral :: "string \<Rightarrow> string \<Rightarrow> nat option" where
  "firstLiteral keyword [] = (if literalHere keyword [] then Some 0 else None)"
| "firstLiteral keyword (c # cs) =
     (if literalHere keyword (c # cs) then Some 0
      else map_option Suc (firstLiteral keyword cs))"

lemma firstLiteral_Some:
  "firstLiteral keyword s = Some k \<Longrightarrow> k + length keyword \<le> length s"
proof (induction s arbitrary: k)
  case Nil
  then show ?case by (auto simp: literalHere_def split: if_splits)
next
  case (Cons c cs)
  show ?case
  proof (cases "literalHere keyword (c # cs)")
    case True
    with Cons.prems show ?thesis by (simp add: literalHere_def)
  next
    case False
    with Cons.prems obtain j where "firstLiteral keyword cs = Some j" "k = Suc j" by auto
    with Cons.IH [of j] show ?thesis by simp
  qed
qed

function literalPositions :: "string \<Rightarrow> string \<Rightarrow> nat \<Rightarrow> nat list" where
  "literalPositions keyword s start =
     (if length s < start then []
      else case firstLiteral keyword (drop start s) of
             None \<Rightarrow> []
           | Some k \<Rightarrow>
               (start + k) # literalPositions keyword s (start + k + max 1 (length keyword)))"
  by pat_completeness auto
termination
proof (relation "measure (\<lambda>(keyword, s, start). Suc (length s) - start)", goal_cases)
  case 1
  show ?case by simp
next
  case (2 keyword s start k)
  from firstLiteral_Some [OF 2(2)] 2(1) show ?case by (cases keyword) (simp_all add: max_def)
qed

declare literalPositions.simps [simp del]

definition literalMatches :: "document \<Rightarrow> string \<Rightarrow> jsval \<Rightarrow> string \<Rightarrow> scan_match list" where
  "literalMatches doc keyword ts url =
     (let textContent = trim (collapseSpaces (bodyText doc)) in
      map (mkMatch TEXT textSnippet textContent keyword ts url)
        (literalPositions keyword textContent 0)
      @ concat (map (\<lambda>sc. map (mkMatch JS jsSnippet sc keyword ts url)
                             (literalPositions keyword sc 0))
                  (filter (\<lambda>sc. sc \<noteq> []) (scripts doc)))
      @ concat (map (\<lambda>c. map (mkMatch COMMENT commentSnippet c keyword ts url)
                            (literalPositions keyword c 0))
                  (filter (\<lambda>c. \<not> includesStr c ''FILE ARCHIVED ON'')
                     (commentBodies (htmlString doc)))))"

subsection \<open>The matches of each zone\<close>

text \<open>
  The matches of the text zone, of the scripts and of the comments that are not archive
  comments, each from the positions that the zone's loop visits.
\<close>

definition textMatches :: "regexp \<Rightarrow> document \<Rightarrow> string \<Rightarrow> jsval \<Rightarrow> string \<Rightarrow> scan_match list" where
  "textMatches re doc keyword ts url =
     map (mkMatch TEXT textSnippet (trim (collapseSpaces (bodyText doc))) keyword ts url)
       (matchIndices re (trim (collapseSpaces (bodyText doc))) 0)"

definition jsMatches :: "regexp \<Rightarrow> document \<Rightarrow> string \<Rightarrow> jsval \<Rightarrow> string \<Rightarrow> scan_match list" where
  "jsMatches re doc keyword ts url =
     concat (map (\<lambda>sc. if sc \<noteq> [] then map (mkMatch JS jsSnippet sc keyword ts url)
                                         (matchIndices re sc 0)
                        else []) (scripts doc))"

definition commentMatches :: "regexp \<Rightarrow> document \<Rightarrow> string \<Rightarrow> jsval \<Rightarrow> string \<Rightarrow> scan_match list" where
  "commentMatches re doc keyword ts url =
     concat (map (\<lambda>c. map (mkMatch COMMENT commentSnippet c keyword ts url) (matchIndices re c 0))
               (filter (\<lambda>c. \<not> isArchiveComment c) (commentBodies (htmlString doc))))"

subsection \<open>Occurrences in document order\<close>

text \<open>
  An occurrence is a zone, the number of a container of that zone (the text zone has
  one container, the script zone has the scripts, the comment zone has the comments of
  the serialized page, all in document order) and a position in the container.
  \<open>before\<close> orders occurrences by zone, then container, then position.
\<close>

type_synonym occurrence = "match_type \<times> nat \<times> nat"

fun zoneRank :: "match_type \<Rightarrow> nat" where
  "zoneRank TEXT = 0"
| "zoneRank JS = 1"
| "zoneRank COMMENT = 2"

definition before :: "occurrence \<Rightarrow> occurrence \<Rightarrow> bool" where
  "before a b =
     (case a of (z, c, p) \<Rightarrow> case b of (z', c', p') \<Rightarrow>
        zoneRank z < zoneRank z' \<or> (z = z' \<and> (c < c' \<or> (c = c' \<and> p < p'))))"

definition containers :: "document \<Rightarrow> match_type \<Rightarrow> string list" where
  "containers doc z =
     (case z of
        TEXT \<Rightarrow> [trim (collapseSpaces (bodyText doc))]
      | JS \<Rightarrow> scripts doc
      | COMMENT \<Rightarrow> commentBodies (htmlString doc))"

definition inDocument :: "document \<Rightarrow> occurrence \<Rightarrow> bool" where
  "inDocument doc occ =
     (case occ of (z, c, p) \<Rightarrow>
        c < length (containers doc z) \<and> p \<le> length (containers doc z ! c))"

fun snippetOf :: "match_type \<Rightarrow> string \<Rightarrow> string \<Rightarrow> nat \<Rightarrow> string" where
  "snippetOf TEXT = textSnippet"
| "snippetOf JS = jsSnippet"
| "snippetOf COMMENT = commentSnippet"

definition matchOf :: "document \<Rightarrow> string \<Rightarrow> jsval \<Rightarrow> string \<Rightarrow> occurrence \<Rightarrow> scan_match" where
  "matchOf doc keyword ts url occ =
     (case occ of (z, c, p) \<Rightarrow>
        mkMatch z (snippetOf z) (containers doc z ! c) keyword ts url p)"

text \<open>
  The occurrences of one zone \<open>z\<close> whose containers are \<open>xs\<close>, numbered from \<open>k\<close>, when
  \<open>g x\<close> are the positions found in the container \<open>x\<close>.
\<close>

definition zoneOccs :: "match_type \<Rightarrow> (string \<Rightarrow> nat list) \<Rightarrow> nat \<Rightarrow> string list \<Rightarrow> occurrence list" where
  "zoneOccs z g k xs = concat (map (\<lambda>(c, x). map (\<lambda>p. (z, c, p)) (g x)) (enumerate k xs))"

text \<open>The positions searched in a container of each zone.\<close>

definition found :: "regexp \<Rightarrow> match_type \<Rightarrow> string \<Rightarrow> nat list" where
  "found re z x =
     (case z of
        TEXT \<Rightarrow> matchIndices re x 0
      | JS \<Rightarrow> if x \<noteq> [] then matchIndices re x 0 else []
      | COMMENT \<Rightarrow> if isArchiveComment x then [] else matchIndices re x 0)"

definition docOccs :: "regexp \<Rightarrow> document \<Rightarrow> match_type \<Rightarrow> occurrence list" where
  "docOccs re doc z = zoneOccs z (found re z) 0 (containers doc z)"

subsection \<open>Responses of the index\<close>

text \<open>
  The failures of the request to the index: the request fails or times out, the status
  is not a success, the body is not JSON, the JSON value is not an array, or a row after
  the header is not iterable and cannot be destructured.
\<close>

definition iterable :: "jsval \<Rightarrow> bool" where
  "iterable v = (case v of JArr xs \<Rightarrow> True | JStr s \<Rightarrow> True | _ \<Rightarrow> False)"

definition indexFailure :: "error + jsval response \<Rightarrow> bool" where
  "indexFailure outcome =
     (case outcome of
        Inl e \<Rightarrow> True
      | Inr r \<Rightarrow>
          \<not> ok r \<or>
          (case payload r of
             Inl e \<Rightarrow> True
           | Inr data \<Rightarrow>
               (case data of JArr rows \<Rightarrow> \<not> list_all iterable (drop 1 rows) | _ \<Rightarrow> True)))"

text \<open>
  A field that is a string and not empty, and a row that starts with two such fields.
\<close>

definition nonEmptyString :: "jsval \<Rightarrow> bool" where
  "nonEmptyString v = (case v of JStr s \<Rightarrow> s \<noteq> [] | _ \<Rightarrow> False)"

definition nonEmptyRow :: "jsval \<Rightarrow> bool" where
  "nonEmptyRow row =
     (case row of
        JArr xs \<Rightarrow> nonEmptyString (element xs 0) \<and> nonEmptyString (element xs 1)
      | _ \<Rightarrow> False)"

subsection \<open>Events of the stream\<close>

text \<open>
  A snapshot renders when the template literals of its iteration raise no error;
  \<open>shown\<close> is then the text of a field and \<open>replayUrl\<close> the URL of the page.
\<close>

definition renders :: "snapshot \<Rightarrow> bool" where
  "renders s =
     (case toStr (snapshot.timestamp s) of
        Inl e \<Rightarrow> False
      | Inr t \<Rightarrow> (case toStr (original s) of Inl e \<Rightarrow> False | Inr u \<Rightarrow> True))"

definition shown :: "jsval \<Rightarrow> string" where
  "shown v = (case toStr v of Inl e \<Rightarrow> [] | Inr t \<Rightarrow> t)"

definition replayUrl :: "snapshot \<Rightarrow> string" where
  "replayUrl s =
     ''https://web.archive.org/web/'' @ shown (snapshot.timestamp s) @ ''/'' @ shown (original s)"

text \<open>
  What one iteration of the loop writes for a snapshot that renders: the progress event
  of the snapshot, then one match event for each match of its page, if the page is
  fetched and read.
\<close>

definition pageMatches ::
  "(nat \<Rightarrow> string \<Rightarrow> error + string response) \<Rightarrow> (string \<Rightarrow> document) \<Rightarrow> string \<Rightarrow> nat
     \<Rightarrow> snapshot \<Rightarrow> scan_match list" where
  "pageMatches fetch cheerio keyword i s =
     (case fetch i (replayUrl s) of
        Inl e \<Rightarrow> []
      | Inr response \<Rightarrow>
          if ok response then
            (case payload response of
               Inl e \<Rightarrow> []
             | Inr html \<Rightarrow>
                 (case extractData cheerio html keyword (snapshot.timestamp s) (replayUrl s) of
                    None \<Rightarrow> []
                  | Some matches \<Rightarrow> matches))
          else [])"

definition iterationEvents ::
  "(nat \<Rightarrow> string \<Rightarrow> error + string response) \<Rightarrow> (string \<Rightarrow> document) \<Rightarrow> string \<Rightarrow> nat
     \<Rightarrow> nat \<Rightarrow> snapshot \<Rightarrow> scan_event list" where
  "iterationEvents fetch cheerio keyword n i s =
     Progress (''Scanning snapshot: '' @ shown (snapshot.timestamp s) @ ''...'') (Some (i + 1)) (Some n)
     # map Match (pageMatches fetch cheerio keyword i s)"

fun eventsFrom ::
  "(nat \<Rightarrow> string \<Rightarrow> error + string response) \<Rightarrow> (string \<Rightarrow> document) \<Rightarrow> string \<Rightarrow> nat
     \<Rightarrow> nat \<Rightarrow> snapshot list \<Rightarrow> scan_event list" where
  "eventsFrom fetch cheerio keyword n i [] = []"
| "eventsFrom fetch cheerio keyword n i (s # rest) =
     iterationEvents fetch cheerio keyword n i s @ eventsFrom fetch cheerio keyword n (i + 1) rest"

fun isComplete :: "scan_event \<Rightarrow> bool" where
  "isComplete (Complete m) = True"
| "isComplete e = False"

fun snapshotNumber :: "scan_event \<Rightarrow> nat" where
  "snapshotNumber (Progress m (Some c) t) = c"
| "snapshotNumber e = 0"


subsection \<open>An example\<close>

text \<open>
  A page with the keyword \<^verbatim>\<open>key\<close> once in its text, once in a script, once in a
  comment and once in the archive's comment, and an index that lists one snapshot.
\<close>

definition examplePage :: document where
  "examplePage =
     \<lparr>bodyText = ''Hello  key'', scripts = [''var key = 1;'', ''''],
      htmlString = ''<html><!-- the KEY --><script>var key = 1;</script><!-- FILE ARCHIVED ON key --></html>''\<rparr>"


text \<open>
  A client that stays connected, a page request that fails, the parser that gives the
  example page, and three responses of the index: no row at all, a row that lacks the
  original URL, and a row of two empty strings.
\<close>

definition alwaysConnected :: "nat \<Rightarrow> bool" where
  "alwaysConnected i = True"

definition noPage :: "nat \<Rightarrow> string \<Rightarrow> error + string response" where
  "noPage i url = Inl NetworkError"

definition parsedExample :: "string \<Rightarrow> document" where
  "parsedExample html = examplePage"

definition emptyIndex :: "(string \<times> string) list \<Rightarrow> error + jsval response" where
  "emptyIndex q = Inr (Response True 200 (Inr (JArr [])))"

definition shortRowIndex :: "(string \<times> string) list \<Rightarrow> error + jsval response" where
  "shortRowIndex q =
     Inr (Response True 200
       (Inr (JArr [JArr [JStr ''timestamp'', JStr ''original''],
                   JArr [JStr ''20200101000000'']])))"

definition emptyFieldsIndex :: "(string \<times> string) list \<Rightarrow> error + jsval response" where
  "emptyFieldsIndex q =
     Inr (Response True 200
       (Inr (JArr [JArr [JStr ''timestamp'', JStr ''original''],
                   JArr [JStr [], JStr []]])))"

text \<open>
  Two pages with the keyword \<^verbatim>\<open>key\<close> once in the visible text, once in the script and
  once in the comment: one with the script in the head, one with the script in the body,
  whose text then holds the script's text. \<open>parsedPages\<close> gives the three views of each.
\<close>

definition scriptInHeadHtml :: string where
  "scriptInHeadHtml =
     ''<html><head><script>var key = 1;</script></head><body><p>Hello key</p><!-- the key --></body></html>''"

definition scriptInBodyHtml :: string where
  "scriptInBodyHtml =
     ''<html><head></head><body><p>Hello key</p><script>var key = 1;</script><!-- the key --></body></html>''"

definition scriptInHeadPage :: document where
  "scriptInHeadPage =
     \<lparr>bodyText = ''Hello key'', scripts = [''var key = 1;''], htmlString = scriptInHeadHtml\<rparr>"

definition scriptInBodyPage :: document where
  "scriptInBodyPage =
     \<lparr>bodyText = ''Hello key'' @ ''var key = 1;'', scripts = [''var key = 1;''],
      htmlString = scriptInBodyHtml\<rparr>"

definition parsedPages :: "string \<Rightarrow> document" where
  "parsedPages html =
     (if html = scriptInHeadHtml then scriptInHeadPage
      else if html = scriptInBodyHtml then scriptInBodyPage
      else examplePage)"

definition pageWithScriptInHead :: "nat \<Rightarrow> string \<Rightarrow> error + string response" where
  "pageWithScriptInHead i url = Inr (Response True 200 (Inr scriptInHeadHtml))"


text \<open>
  An index with two snapshots, an index whose timestamp is an object with a key
  \<^verbatim>\<open>toString\<close>, and a client that is connected at the first iteration only.
\<close>

definition twoSnapshotIndex :: "(string \<times> string) list \<Rightarrow> error + jsval response" where
  "twoSnapshotIndex q =
     Inr (Response True 200
       (Inr (JArr [JArr [JStr ''timestamp'', JStr ''original''],
                   JArr [JStr ''2020'', JStr ''http://example.com/''],
                   JArr [JStr ''2021'', JStr ''http://example.com/'']])))"

definition objectTimestampIndex :: "(string \<times> string) list \<Rightarrow> error + jsval response" where
  "objectTimestampIndex q =
     Inr (Response True 200
       (Inr (JArr [JArr [JStr ''timestamp'', JStr ''original''],
                   JArr [JObj [(''toString'', JNum ''1'')], JStr ''http://example.com/'']])))"

definition connectedOnce :: "nat \<Rightarrow> bool" where
  "connectedOnce i = (i < 1)"

section \<open>The escaped keyword is a literal pattern\<close>

lemma backslash_syntax: "isSyntaxChar backslash"
  by (simp add: isSyntaxChar_def syntaxChars_def)

lemma dot_syntax: "isSyntaxChar CHR ''.''"
  by (simp add: isSyntaxChar_def syntaxChars_def)

lemma newRegExp_plain:
  "\<not> isSyntaxChar c \<Longrightarrow> newRegExp (c # rest) = map_option (Cons (Lit c)) (newRegExp rest)"
  using backslash_syntax dot_syntax by (cases rest) auto

lemma newRegExp_escaped:
  "isSyntaxChar c \<Longrightarrow>
   newRegExp (backslash # c # rest) = map_option (Cons (Lit c)) (newRegExp rest)"
  by simp

lemma newRegExp_escapeKeyword: "newRegExp (escapeKeyword keyword) = Some (map Lit keyword)"
proof (induction keyword)
  case Nil
  show ?case by (simp add: escapeKeyword_def)
next
  case (Cons c cs)
  have step: "escapeKeyword (c # cs) =
      (if isSyntaxChar c then [backslash, c] else [c]) @ escapeKeyword cs"
    by (simp add: escapeKeyword_def)
  show ?case
  proof (cases "isSyntaxChar c")
    case True
    then show ?thesis
      using Cons.IH by (simp add: step newRegExp_escaped del: newRegExp.simps)
  next
    case False
    then show ?thesis
      using Cons.IH by (simp add: step newRegExp_plain del: newRegExp.simps)
  qed
qed

lemma matchHere_literal: "matchHere (map Lit keyword) s = literalHere keyword s"
proof (induction keyword arbitrary: s)
  case Nil
  show ?case by (simp add: literalHere_def)
next
  case (Cons c cs)
  show ?case
  proof (cases s)
    case Nil
    then show ?thesis by (simp add: literalHere_def)
  next
    case (Cons d ds)
    with Cons.IH [of ds] show ?thesis by (auto simp: literalHere_def)
  qed
qed

lemma extractData_literal:
  "extractData cheerio html keyword ts url =
     Some (scanZones (map Lit keyword) (cheerio html) keyword ts url)"
  by (simp add: extractData_def newRegExp_escapeKeyword)

section \<open>The positions that a zone's loop visits\<close>

lemma matchLoop_indices:
  "matchLoop re zone mk lastIndex matches = matches @ map mk (matchIndices re zone lastIndex)"
proof (induction re zone mk lastIndex matches rule: matchLoop.induct)
  case (1 re zone mk lastIndex matches)
  show ?case
  proof (cases "exec re zone lastIndex")
    case None
    then show ?thesis
      by (subst matchLoop.simps, subst matchIndices.simps) simp
  next
    case (Some index)
    from "1.IH" [OF Some refl refl refl] Some show ?thesis
      by (subst matchLoop.simps, subst matchIndices.simps) (simp add: Let_def)
  qed
qed

lemma matchIndices_None: "exec re zone lastIndex = None \<Longrightarrow> matchIndices re zone lastIndex = []"
  by (subst matchIndices.simps) simp

lemma matchIndices_Some:
  "exec re zone lastIndex = Some index \<Longrightarrow> re \<noteq> [] \<Longrightarrow>
   matchIndices re zone lastIndex = index # matchIndices re zone (index + length re)"
  by (subst matchIndices.simps) simp

lemma literalHere_block:
  "map canonicalize w = map canonicalize keyword \<Longrightarrow> literalHere keyword (w @ rest)"
proof -
  assume a: "map canonicalize w = map canonicalize keyword"
  then have "length w = length keyword" by (metis length_map)
  with a show ?thesis by (simp add: literalHere_def)
qed

lemma matchIndices_blocks:
  assumes "keyword \<noteq> []"
    and "\<forall>w \<in> set ws. map canonicalize w = map canonicalize keyword"
  shows "matchIndices (map Lit keyword) (pre @ concat ws) (length pre) =
         map (\<lambda>j. length pre + j * length keyword) [0..<length ws]"
  using assms(2)
proof (induction ws arbitrary: pre)
  case Nil
  from assms(1) have "exec (map Lit keyword) pre (length pre) = None"
    by (cases keyword) (simp_all add: exec_def)
  then show ?case by (simp add: matchIndices_None)
next
  case (Cons w ws)
  from Cons.prems have w: "map canonicalize w = map canonicalize keyword" by simp
  then have lw: "length w = length keyword" by (metis length_map)
  with assms(1) obtain c cs where wc: "w = c # cs" by (cases w) auto
  have "matchHere (map Lit keyword) (w @ concat ws)"
    using literalHere_block [OF w] by (simp add: matchHere_literal)
  then have "search (map Lit keyword) (w @ concat ws) = Some 0"
    by (simp add: wc)
  then have ex: "exec (map Lit keyword) (pre @ concat (w # ws)) (length pre) = Some (length pre)"
    by (simp add: exec_def)
  have ih: "matchIndices (map Lit keyword) ((pre @ w) @ concat ws) (length (pre @ w)) =
      map (\<lambda>j. length (pre @ w) + j * length keyword) [0..<length ws]"
    using Cons.IH [of "pre @ w"] Cons.prems by simp
  have "matchIndices (map Lit keyword) (pre @ concat (w # ws)) (length pre) =
      length pre # matchIndices (map Lit keyword) (pre @ concat (w # ws)) (length pre + length keyword)"
    using matchIndices_Some [OF ex] assms(1) by simp
  also have "\<dots> = length pre # map (\<lambda>j. length pre + length keyword + j * length keyword) [0..<length ws]"
    using ih by (simp add: lw)
  also have "\<dots> = map (\<lambda>j. length pre + j * length keyword) [0..<length (w # ws)]"
    by (simp add: map_upt_Suc del: upt_Suc)
  finally show ?case .
qed

lemma matchIndices_bounds:
  "i \<in> set (matchIndices re zone lastIndex) \<Longrightarrow> lastIndex \<le> i \<and> i \<le> length zone"
proof (induction re zone lastIndex rule: matchIndices.induct)
  case (1 re zone lastIndex)
  show ?case
  proof (cases "exec re zone lastIndex")
    case None
    with "1.prems" show ?thesis by (simp add: matchIndices_None)
  next
    case (Some index)
    from exec_Some [OF Some] have b: "lastIndex \<le> index" "index + length re \<le> length zone"
      by simp_all
    from "1.prems" Some have "i = index \<or> i \<in> set (matchIndices re zone
        (if index = index + length re then index + length re + 1 else index + length re))"
      by (subst (asm) matchIndices.simps) simp
    then show ?thesis
    proof
      assume "i = index"
      with b show ?thesis by simp
    next
      assume "i \<in> set (matchIndices re zone
        (if index = index + length re then index + length re + 1 else index + length re))"
      from "1.IH" [OF Some this] b show ?thesis by (simp split: if_splits)
    qed
  qed
qed

lemma matchIndices_sorted: "sorted_wrt (<) (matchIndices re zone lastIndex)"
proof (induction re zone lastIndex rule: matchIndices.induct)
  case (1 re zone lastIndex)
  show ?case
  proof (cases "exec re zone lastIndex")
    case None
    then show ?thesis by (simp add: matchIndices_None)
  next
    case (Some index)
    let ?next = "if index = index + length re then index + length re + 1 else index + length re"
    have eq: "matchIndices re zone lastIndex = index # matchIndices re zone ?next"
      using Some by (subst matchIndices.simps) simp
    have "\<forall>i \<in> set (matchIndices re zone ?next). index < i"
    proof
      fix i assume "i \<in> set (matchIndices re zone ?next)"
      from matchIndices_bounds [OF this] show "index < i" by (cases re) (simp_all split: if_splits)
    qed
    with "1.IH" [OF Some] show ?thesis by (simp add: eq)
  qed
qed

lemma matchIndices_match:
  "i \<in> set (matchIndices re zone lastIndex) \<Longrightarrow> matchHere re (drop i zone)"
proof (induction re zone lastIndex rule: matchIndices.induct)
  case (1 re zone lastIndex)
  show ?case
  proof (cases "exec re zone lastIndex")
    case None
    with "1.prems" show ?thesis by (simp add: matchIndices_None)
  next
    case (Some index)
    from "1.prems" Some have "i = index \<or> i \<in> set (matchIndices re zone
        (if index = index + length re then index + length re + 1 else index + length re))"
      by (subst (asm) matchIndices.simps) simp
    then show ?thesis
    proof
      assume "i = index"
      with exec_Some(3) [OF Some] show ?thesis by simp
    next
      assume "i \<in> set (matchIndices re zone
        (if index = index + length re then index + length re + 1 else index + length re))"
      from "1.IH" [OF Some this] show ?thesis .
    qed
  qed
qed







section \<open>The result of the extractor, zone by zone\<close>

lemma commentLoop_spans:
  "commentLoop re keyword ts url html lastIndex matches =
     matches @ concat (map (\<lambda>(i, c). if isArchiveComment c then []
                                      else map (mkMatch COMMENT commentSnippet c keyword ts url)
                                             (matchIndices re c 0))
                        (commentSpans html lastIndex))"
proof (induction re keyword ts url html lastIndex matches rule: commentLoop.induct)
  case (1 re keyword ts url html lastIndex matches)
  show ?case
  proof (cases "commentExec html lastIndex")
    case None
    then show ?thesis
      by (subst commentLoop.simps, subst commentSpans.simps) simp
  next
    case (Some t)
    then obtain index comment lastIndex' where t: "t = (index, comment, lastIndex')"
      by (cases t) auto
    show ?thesis
    proof (cases "includesStr comment ''FILE ARCHIVED ON''")
      case True
      from "1.IH"(1) [OF Some t [symmetric] refl True] Some t True show ?thesis
        by (subst commentLoop.simps, subst commentSpans.simps) (simp add: isArchiveComment_def)
    next
      case False
      from "1.IH"(2) [OF Some t [symmetric] refl False] Some t False show ?thesis
        by (subst commentLoop.simps, subst commentSpans.simps)
          (simp add: isArchiveComment_def matchLoop_indices)
    qed
  qed
qed

lemma eachScript_indices:
  "eachScript re keyword ts url scs matches =
     matches @ concat (map (\<lambda>sc. if sc \<noteq> [] then map (mkMatch JS jsSnippet sc keyword ts url)
                                                   (matchIndices re sc 0)
                                  else []) scs)"
  by (induction scs arbitrary: matches) (simp_all add: matchLoop_indices)

lemma concat_map_if_filter:
  "concat (map (\<lambda>x. if P x then [] else f x) xs) = concat (map f (filter (\<lambda>x. \<not> P x) xs))"
  by (induction xs) simp_all

lemma scanZones_parts:
  "scanZones re doc keyword ts url =
     textMatches re doc keyword ts url @ jsMatches re doc keyword ts url
       @ commentMatches re doc keyword ts url"
proof -
  have "concat (map (\<lambda>(i, c). if isArchiveComment c then []
                              else map (mkMatch COMMENT commentSnippet c keyword ts url)
                                     (matchIndices re c 0))
                   (commentSpans (htmlString doc) 0))
      = concat (map (\<lambda>c. if isArchiveComment c then []
                              else map (mkMatch COMMENT commentSnippet c keyword ts url)
                                     (matchIndices re c 0))
                   (commentBodies (htmlString doc)))"
    by (simp add: commentBodies_def comp_def case_prod_unfold)
  then show ?thesis
    by (simp add: scanZones_def Let_def matchLoop_indices eachScript_indices commentLoop_spans
        textMatches_def jsMatches_def commentMatches_def concat_map_if_filter)
qed

lemma matchType_text: "m \<in> set (textMatches re doc keyword ts url) \<Longrightarrow> matchType m = TEXT"
  by (auto simp: textMatches_def mkMatch_def)

lemma matchType_js: "m \<in> set (jsMatches re doc keyword ts url) \<Longrightarrow> matchType m = JS"
  by (auto simp: jsMatches_def mkMatch_def split: if_splits)

lemma matchType_comment: "m \<in> set (commentMatches re doc keyword ts url) \<Longrightarrow> matchType m = COMMENT"
  by (auto simp: commentMatches_def mkMatch_def)








lemma commentSpans_bounds:
  "(i, c) \<in> set (commentSpans html lastIndex) \<Longrightarrow> lastIndex \<le> i"
proof (induction html lastIndex rule: commentSpans.induct)
  case (1 html lastIndex)
  show ?case
  proof (cases "commentExec html lastIndex")
    case None
    with "1.prems" show ?thesis by (subst (asm) commentSpans.simps) simp
  next
    case (Some t)
    then obtain index comment lastIndex' where t: "t = (index, comment, lastIndex')"
      by (cases t) auto
    from commentExec_Some [OF Some [unfolded t]]
    have b: "lastIndex \<le> index" "index + 7 \<le> lastIndex'" by simp_all
    from "1.prems" Some t have "(i, c) = (index, comment) \<or> (i, c) \<in> set (commentSpans html lastIndex')"
      by (subst (asm) commentSpans.simps) simp
    then show ?thesis
    proof
      assume "(i, c) = (index, comment)"
      with b show ?thesis by simp
    next
      assume "(i, c) \<in> set (commentSpans html lastIndex')"
      from "1.IH" [OF Some t [symmetric] refl this] b show ?thesis by simp
    qed
  qed
qed

lemma commentSpans_sorted: "sorted_wrt (<) (map fst (commentSpans html lastIndex))"
proof (induction html lastIndex rule: commentSpans.induct)
  case (1 html lastIndex)
  show ?case
  proof (cases "commentExec html lastIndex")
    case None
    then show ?thesis by (subst commentSpans.simps) simp
  next
    case (Some t)
    then obtain index comment lastIndex' where t: "t = (index, comment, lastIndex')"
      by (cases t) auto
    from commentExec_Some [OF Some [unfolded t]]
    have b: "index + 7 \<le> lastIndex'" by simp
    have eq: "commentSpans html lastIndex = (index, comment) # commentSpans html lastIndex'"
      using Some t by (subst commentSpans.simps) simp
    have "\<forall>x \<in> set (commentSpans html lastIndex'). index < fst x"
    proof
      fix x assume "x \<in> set (commentSpans html lastIndex')"
      then have "(fst x, snd x) \<in> set (commentSpans html lastIndex')" by simp
      from commentSpans_bounds [OF this] b show "index < fst x" by simp
    qed
    with "1.IH" [OF Some t [symmetric] refl] show ?thesis by (simp add: eq)
  qed
qed

lemma zoneOccs_Nil: "zoneOccs z g k [] = []"
  by (simp add: zoneOccs_def)

lemma zoneOccs_Cons: "zoneOccs z g k (x # xs) = map (\<lambda>p. (z, k, p)) (g x) @ zoneOccs z g (Suc k) xs"
  by (simp add: zoneOccs_def)

lemma zoneOccs_mem:
  "(z', c, p) \<in> set (zoneOccs z g k xs) \<Longrightarrow>
   z' = z \<and> k \<le> c \<and> c < k + length xs \<and> p \<in> set (g (xs ! (c - k)))"
proof (induction xs arbitrary: k)
  case Nil
  then show ?case by (simp add: zoneOccs_Nil)
next
  case (Cons x xs)
  from Cons.prems have "(z' = z \<and> c = k \<and> p \<in> set (g x)) \<or> (z', c, p) \<in> set (zoneOccs z g (Suc k) xs)"
    by (auto simp: zoneOccs_Cons)
  then show ?case
  proof
    assume "z' = z \<and> c = k \<and> p \<in> set (g x)"
    then show ?thesis by simp
  next
    assume "(z', c, p) \<in> set (zoneOccs z g (Suc k) xs)"
    from Cons.IH [OF this] show ?thesis by (auto simp: Suc_diff_le)
  qed
qed

lemma zoneOccs_sorted:
  assumes "\<And>x. sorted_wrt (<) (g x)"
  shows "sorted_wrt before (zoneOccs z g k xs)"
proof (induction xs arbitrary: k)
  case Nil
  show ?case by (simp add: zoneOccs_Nil)
next
  case (Cons x xs)
  have 1: "sorted_wrt before (map (\<lambda>p. (z, k, p)) (g x))"
    using assms [of x] by (simp add: sorted_wrt_map before_def)
  have 2: "\<forall>a \<in> set (map (\<lambda>p. (z, k, p)) (g x)). \<forall>b \<in> set (zoneOccs z g (Suc k) xs). before a b"
  proof (intro ballI)
    fix a b assume a: "a \<in> set (map (\<lambda>p. (z, k, p)) (g x))"
      and b: "b \<in> set (zoneOccs z g (Suc k) xs)"
    obtain z' c p where bb: "b = (z', c, p)" by (cases b) auto
    from zoneOccs_mem [OF b [unfolded bb]] have "z' = z" "Suc k \<le> c" by simp_all
    with a bb show "before a b" by (auto simp: before_def)
  qed
  from 1 2 Cons.IH [of "Suc k"] show ?case
    by (simp add: zoneOccs_Cons sorted_wrt_append)
qed

lemma zoneOccs_matches:
  assumes "\<And>i. i < length xs \<Longrightarrow> ys ! (k + i) = xs ! i"
  shows "map (\<lambda>(z', c, p). mk (ys ! c) p) (zoneOccs z g k xs) =
         concat (map (\<lambda>x. map (mk x) (g x)) xs)"
  using assms
proof (induction xs arbitrary: k)
  case Nil
  show ?case by (simp add: zoneOccs_Nil)
next
  case (Cons x xs)
  from Cons.prems [of 0] have 0: "ys ! k = x" by simp
  have "\<And>i. i < length xs \<Longrightarrow> ys ! (Suc k + i) = xs ! i"
    using Cons.prems [of "Suc i" for i] by simp
  from Cons.IH [OF this] 0 show ?case
    by (simp add: zoneOccs_Cons comp_def)
qed

lemma found_sorted: "sorted_wrt (<) (found re z x)"
  by (cases z) (simp_all add: found_def matchIndices_sorted)

lemma found_bounds: "p \<in> set (found re z x) \<Longrightarrow> p \<le> length x"
  by (cases z) (auto simp: found_def dest: matchIndices_bounds split: if_splits)

lemma docOccs_mem:
  assumes "occ \<in> set (docOccs re doc z)"
  shows "fst occ = z" and "inDocument doc occ"
proof -
  obtain z' c p where occ: "occ = (z', c, p)" by (cases occ) auto
  from zoneOccs_mem [OF assms [unfolded docOccs_def occ]]
  have m: "z' = z" "c < length (containers doc z)" "p \<in> set (found re z (containers doc z ! c))"
    by simp_all
  show "fst occ = z" using occ m by simp
  from found_bounds [OF m(3)] m occ show "inDocument doc occ"
    by (simp add: inDocument_def)
qed

lemma docOccs_sorted: "sorted_wrt before (docOccs re doc z)"
  unfolding docOccs_def by (rule zoneOccs_sorted) (rule found_sorted)

lemma docOccs_matches:
  "map (matchOf doc keyword ts url) (docOccs re doc z) =
     concat (map (\<lambda>x. map (mkMatch z (snippetOf z) x keyword ts url) (found re z x))
               (containers doc z))"
proof -
  have "map (matchOf doc keyword ts url) (docOccs re doc z) =
      map (\<lambda>(z', c, p). mkMatch z (snippetOf z) (containers doc z ! c) keyword ts url p)
        (docOccs re doc z)"
  proof (rule map_cong [OF refl])
    fix occ assume "occ \<in> set (docOccs re doc z)"
    from docOccs_mem(1) [OF this]
    show "matchOf doc keyword ts url occ =
        (case occ of (z', c, p) \<Rightarrow> mkMatch z (snippetOf z) (containers doc z ! c) keyword ts url p)"
      by (cases occ) (auto simp: matchOf_def)
  qed
  also have "\<dots> = concat (map (\<lambda>x. map (mkMatch z (snippetOf z) x keyword ts url) (found re z x))
               (containers doc z))"
    unfolding docOccs_def
    by (rule zoneOccs_matches [where mk = "\<lambda>x. mkMatch z (snippetOf z) x keyword ts url"]) simp
  finally show ?thesis .
qed

lemma textMatches_occs:
  "textMatches re doc keyword ts url = map (matchOf doc keyword ts url) (docOccs re doc TEXT)"
  by (simp add: docOccs_matches textMatches_def containers_def found_def)

lemma jsMatches_occs:
  "jsMatches re doc keyword ts url = map (matchOf doc keyword ts url) (docOccs re doc JS)"
proof -
  have "(\<lambda>sc. if sc \<noteq> [] then map (mkMatch JS jsSnippet sc keyword ts url) (matchIndices re sc 0)
               else []) =
        (\<lambda>x. map (mkMatch JS (snippetOf JS) x keyword ts url) (found re JS x))"
    by (auto simp: found_def)
  then show ?thesis
    by (simp add: docOccs_matches jsMatches_def containers_def)
qed

lemma commentMatches_occs:
  "commentMatches re doc keyword ts url = map (matchOf doc keyword ts url) (docOccs re doc COMMENT)"
proof -
  have "(\<lambda>x. map (mkMatch COMMENT (snippetOf COMMENT) x keyword ts url) (found re COMMENT x)) =
        (\<lambda>c. if isArchiveComment c then []
              else map (mkMatch COMMENT commentSnippet c keyword ts url) (matchIndices re c 0))"
    by (auto simp: found_def)
  then show ?thesis
    by (simp add: docOccs_matches commentMatches_def containers_def concat_map_if_filter)
qed

lemma before_zones:
  "fst a = z \<Longrightarrow> fst b = z' \<Longrightarrow> zoneRank z < zoneRank z' \<Longrightarrow> before a b"
  by (cases a, cases b) (auto simp: before_def)

lemma search_literal: "search (map Lit keyword) s = firstLiteral keyword s"
  by (induction s) (simp_all add: matchHere_literal)

lemma exec_literal:
  "exec (map Lit keyword) s lastIndex =
     (if length s < lastIndex then None
      else map_option (\<lambda>k. lastIndex + k) (firstLiteral keyword (drop lastIndex s)))"
  by (simp add: exec_def search_literal)

lemma matchIndices_literal:
  "matchIndices (map Lit keyword) s lastIndex = literalPositions keyword s lastIndex"
proof (induction "map Lit keyword" s lastIndex rule: matchIndices.induct)
  case (1 s lastIndex)
  show ?case
  proof (cases "exec (map Lit keyword) s lastIndex")
    case None
    then show ?thesis
      by (subst literalPositions.simps)
        (auto simp: matchIndices_None exec_literal split: if_splits)
  next
    case (Some index)
    then obtain k where le: "\<not> length s < lastIndex"
      and k: "firstLiteral keyword (drop lastIndex s) = Some k" and idx: "index = lastIndex + k"
      by (auto simp: exec_literal split: if_splits)
    have nx: "(if index = index + length (map Lit keyword) then index + length (map Lit keyword) + 1
               else index + length (map Lit keyword)) = lastIndex + k + max 1 (length keyword)"
      by (cases keyword) (simp_all add: idx max_def)
    have "matchIndices (map Lit keyword) s lastIndex =
        index # matchIndices (map Lit keyword) s
          (if index = index + length (map Lit keyword) then index + length (map Lit keyword) + 1
           else index + length (map Lit keyword))"
      using Some by (subst matchIndices.simps) simp
    also have "\<dots> = index # literalPositions keyword s
          (if index = index + length (map Lit keyword) then index + length (map Lit keyword) + 1
           else index + length (map Lit keyword))"
      using "1.hyps" [OF Some] by simp
    also have "\<dots> = literalPositions keyword s lastIndex"
      unfolding nx by (subst (2) literalPositions.simps) (simp add: le k idx)
    finally show ?thesis .
  qed
qed

lemma concat_map_if_filter':
  "concat (map (\<lambda>x. if P x then f x else []) xs) = concat (map f (filter P xs))"
  by (induction xs) simp_all

lemma scanZones_literal:
  "scanZones (map Lit keyword) doc keyword ts url = literalMatches doc keyword ts url"
  by (simp add: scanZones_parts textMatches_def jsMatches_def commentMatches_def
      literalMatches_def matchIndices_literal concat_map_if_filter' isArchiveComment_def Let_def)

lemma literalPositions_literal:
  "p \<in> set (literalPositions keyword s start) \<Longrightarrow> literalHere keyword (drop p s)"
  using matchIndices_match [of p "map Lit keyword" s start]
  by (simp add: matchIndices_literal matchHere_literal)

section \<open>Newlines in snippets\<close>

lemma newlinesToSpaces_no_newline: "CHR 0x0A \<notin> set (newlinesToSpaces s)"
  by (auto simp: newlinesToSpaces_def)

lemma set_trim: "set (trim s) \<subseteq> set s"
proof
  fix c assume "c \<in> set (trim s)"
  then have "c \<in> set (dropWhile isSpace (rev (dropWhile isSpace s)))"
    by (simp add: trim_def)
  then have "c \<in> set (rev (dropWhile isSpace s))" by (rule set_dropWhileD)
  then have "c \<in> set (dropWhile isSpace s)" by simp
  then show "c \<in> set s" by (rule set_dropWhileD)
qed

lemma textSnippet_no_newline: "CHR 0x0A \<notin> set (textSnippet textContent keyword index)"
  using newlinesToSpaces_no_newline by (simp add: textSnippet_def Let_def)

lemma jsSnippet_no_newline: "CHR 0x0A \<notin> set (jsSnippet scriptContent keyword index)"
  using newlinesToSpaces_no_newline set_trim by (fastforce simp: jsSnippet_def Let_def)

section \<open>Rows of the index\<close>

lemma mapRows_total:
  "list_all iterable rows \<Longrightarrow> \<exists>ss. mapRows rows = Inr ss \<and> length ss = length rows"
proof (induction rows)
  case Nil
  show ?case by simp
next
  case (Cons row rows)
  then obtain ss where ss: "mapRows rows = Inr ss" "length ss = length rows" by auto
  from Cons.prems have "iterable row" by simp
  then obtain s where "toSnapshot row = Inr s"
    by (cases row) (auto simp: iterable_def)
  with ss show ?case by simp
qed

lemma mapRows_fails:
  "\<not> list_all iterable rows \<Longrightarrow> mapRows rows = Inl TypeError"
proof (induction rows)
  case Nil
  then show ?case by simp
next
  case (Cons row rows)
  show ?case
  proof (cases "iterable row")
    case True
    then obtain s where "toSnapshot row = Inr s"
      by (cases row) (auto simp: iterable_def)
    with Cons True show ?thesis by simp
  next
    case False
    then have "toSnapshot row = Inl TypeError"
      by (cases row) (auto simp: iterable_def)
    then show ?thesis by simp
  qed
qed

lemma mapRows_nonEmpty:
  "list_all nonEmptyRow rows \<Longrightarrow>
   \<exists>ss. mapRows rows = Inr ss \<and> length ss = length rows \<and>
     list_all (\<lambda>s. nonEmptyString (snapshot.timestamp s) \<and> nonEmptyString (original s)) ss"
proof (induction rows)
  case Nil
  show ?case by simp
next
  case (Cons row rows)
  then obtain ss where ss: "mapRows rows = Inr ss" "length ss = length rows"
    "list_all (\<lambda>s. nonEmptyString (snapshot.timestamp s) \<and> nonEmptyString (original s)) ss"
    by auto
  from Cons.prems have "nonEmptyRow row" by simp
  then obtain xs where row: "row = JArr xs"
    and xs: "nonEmptyString (element xs 0)" "nonEmptyString (element xs 1)"
    by (cases row) (auto simp: nonEmptyRow_def)
  with ss show ?case by simp
qed

section \<open>The events of the loop\<close>

lemma sendMatches_written:
  "sendMatches r ms = r\<lparr>written := written r @ map Match ms\<rparr>"
  by (induction ms arbitrary: r) (simp_all add: sendProgress_def)

lemma scanSnapshot_written:
  "snd (scanSnapshot fetch cheerio keyword i (snapshot.timestamp s) (replayUrl s) foundAny r) =
     r\<lparr>written := written r @ map Match (pageMatches fetch cheerio keyword i s)\<rparr>"
  by (auto simp: scanSnapshot_def pageMatches_def sendMatches_written
      split: sum.splits option.splits)

lemma renders_Inr:
  "renders s \<Longrightarrow>
   toStr (snapshot.timestamp s) = Inr (shown (snapshot.timestamp s)) \<and>
   toStr (original s) = Inr (shown (original s))"
  by (auto simp: renders_def shown_def split: sum.splits)

lemma forLoop_step:
  assumes "clientConnected i" and "renders s"
  shows "forLoop clientConnected fetch cheerio keyword n (s # rest) i foundAny r =
   forLoop clientConnected fetch cheerio keyword n rest (i + 1)
     (fst (scanSnapshot fetch cheerio keyword i (snapshot.timestamp s) (replayUrl s) foundAny
        (sendProgress r (Progress (''Scanning snapshot: '' @ shown (snapshot.timestamp s) @ ''...'')
           (Some (i + 1)) (Some n)))))
     (r\<lparr>written := written r @ iterationEvents fetch cheerio keyword n i s\<rparr>)"
proof -
  let ?r' = "sendProgress r (Progress (''Scanning snapshot: '' @ shown (snapshot.timestamp s) @ ''...'')
           (Some (i + 1)) (Some n))"
  have "snd (scanSnapshot fetch cheerio keyword i (snapshot.timestamp s) (replayUrl s) foundAny ?r')
      = r\<lparr>written := written r @ iterationEvents fetch cheerio keyword n i s\<rparr>"
    by (simp add: scanSnapshot_written iterationEvents_def sendProgress_def)
  with assms(1) renders_Inr [OF assms(2)] show ?thesis
    by (simp add: Let_def split_beta replayUrl_def)
qed

lemma forLoop_raised:
  assumes "clientConnected i" and "\<not> renders s"
  shows "\<exists>e. forLoop clientConnected fetch cheerio keyword n (s # rest) i foundAny r = Raised e r"
  using assms by (auto simp: renders_def Let_def split: sum.splits)

lemma forLoop_disconnected:
  assumes "k < length snapshots" and "\<not> clientConnected (i + k)"
    and "\<forall>j<k. clientConnected (i + j)" and "list_all renders (take k snapshots)"
  shows "forLoop clientConnected fetch cheerio keyword n snapshots i foundAny r =
         Disconnected (r\<lparr>written := written r @ eventsFrom fetch cheerio keyword n i (take k snapshots)\<rparr>)"
  using assms
proof (induction k arbitrary: snapshots i foundAny r)
  case 0
  then obtain s rest where "snapshots = s # rest" by (cases snapshots) auto
  with 0 show ?case by simp
next
  case (Suc k)
  then obtain s rest where sn: "snapshots = s # rest" by (cases snapshots) auto
  from Suc.prems have c: "clientConnected i" by force
  from Suc.prems sn have rs: "renders s" and rr: "list_all renders (take k rest)" by simp_all
  have 1: "k < length rest" using Suc.prems sn by simp
  have 2: "\<not> clientConnected (i + 1 + k)" using Suc.prems by simp
  have 3: "\<forall>j<k. clientConnected (i + 1 + j)"
  proof (intro allI impI)
    fix j assume "j < k"
    then have "Suc j < Suc k" by simp
    with Suc.prems(3) have "clientConnected (i + Suc j)" by blast
    then show "clientConnected (i + 1 + j)" by simp
  qed
  note step = forLoop_step [of clientConnected i s fetch cheerio keyword n rest foundAny r, OF c rs]
  show ?case
    unfolding sn step
    by (subst Suc.IH [OF 1 2 3 rr]) simp
qed

text \<open>
  Whatever the snapshots hold, the loop that meets a closed connection at iteration
  \<open>i + k\<close> has written the events of the first \<open>j\<close> snapshots for some \<open>j\<close> up to \<open>k\<close>,
  and has left by the closed connection or by an error.
\<close>

lemma forLoop_prefix:
  assumes "k < length snapshots" and "\<not> clientConnected (i + k)"
    and "\<forall>j<k. clientConnected (i + j)"
  shows "\<exists>j\<le>k. list_all renders (take j snapshots) \<and>
           (forLoop clientConnected fetch cheerio keyword n snapshots i foundAny r =
              Disconnected (r\<lparr>written := written r @
                eventsFrom fetch cheerio keyword n i (take j snapshots)\<rparr>) \<or>
            (\<exists>e. forLoop clientConnected fetch cheerio keyword n snapshots i foundAny r =
              Raised e (r\<lparr>written := written r @
                eventsFrom fetch cheerio keyword n i (take j snapshots)\<rparr>)))"
  using assms
proof (induction k arbitrary: snapshots i foundAny r)
  case 0
  then obtain s rest where "snapshots = s # rest" by (cases snapshots) auto
  with 0 show ?case by simp
next
  case (Suc k)
  then obtain s rest where sn: "snapshots = s # rest" by (cases snapshots) auto
  from Suc.prems have c: "clientConnected i" by force
  show ?case
  proof (cases "renders s")
    case False
    from forLoop_raised [of clientConnected i s fetch cheerio keyword n rest foundAny r, OF c False]
    obtain e where "forLoop clientConnected fetch cheerio keyword n (s # rest) i foundAny r = Raised e r"
      by blast
    then have "forLoop clientConnected fetch cheerio keyword n snapshots i foundAny r =
        Raised e (r\<lparr>written := written r @ eventsFrom fetch cheerio keyword n i (take 0 snapshots)\<rparr>)"
      by (simp add: sn)
    moreover have "list_all renders (take 0 snapshots)" by simp
    moreover have "(0::nat) \<le> Suc k" by simp
    ultimately show ?thesis by blast
  next
    case True
    have 1: "k < length rest" using Suc.prems sn by simp
    have 2: "\<not> clientConnected (i + 1 + k)" using Suc.prems by simp
    have 3: "\<forall>j<k. clientConnected (i + 1 + j)"
    proof (intro allI impI)
      fix j assume "j < k"
      then have "Suc j < Suc k" by simp
      with Suc.prems(3) have "clientConnected (i + Suc j)" by blast
      then show "clientConnected (i + 1 + j)" by simp
    qed
    note step = forLoop_step [of clientConnected i s fetch cheerio keyword n rest foundAny r, OF c True]
    let ?f = "fst (scanSnapshot fetch cheerio keyword i (snapshot.timestamp s) (replayUrl s) foundAny
        (sendProgress r (Progress (''Scanning snapshot: '' @ shown (snapshot.timestamp s) @ ''...'')
           (Some (i + 1)) (Some n))))"
    let ?r = "r\<lparr>written := written r @ iterationEvents fetch cheerio keyword n i s\<rparr>"
    from Suc.IH [OF 1 2 3, of ?f ?r]
    obtain j where j: "j \<le> k" and rj: "list_all renders (take j rest)" and
      out: "forLoop clientConnected fetch cheerio keyword n rest (i + 1) ?f ?r =
             Disconnected (?r\<lparr>written := written ?r @
               eventsFrom fetch cheerio keyword n (i + 1) (take j rest)\<rparr>) \<or>
           (\<exists>e. forLoop clientConnected fetch cheerio keyword n rest (i + 1) ?f ?r =
             Raised e (?r\<lparr>written := written ?r @
               eventsFrom fetch cheerio keyword n (i + 1) (take j rest)\<rparr>))"
      by blast
    have ev: "?r\<lparr>written := written ?r @ eventsFrom fetch cheerio keyword n (i + 1) (take j rest)\<rparr> =
        r\<lparr>written := written r @ eventsFrom fetch cheerio keyword n i (take (Suc j) snapshots)\<rparr>"
      by (simp add: sn)
    from out have "forLoop clientConnected fetch cheerio keyword n snapshots i foundAny r =
             Disconnected (r\<lparr>written := written r @
               eventsFrom fetch cheerio keyword n i (take (Suc j) snapshots)\<rparr>) \<or>
           (\<exists>e. forLoop clientConnected fetch cheerio keyword n snapshots i foundAny r =
             Raised e (r\<lparr>written := written r @
               eventsFrom fetch cheerio keyword n i (take (Suc j) snapshots)\<rparr>))"
      unfolding ev sn step .
    moreover have "list_all renders (take (Suc j) snapshots)" using rj True by (simp add: sn)
    moreover have "Suc j \<le> Suc k" using j by simp
    ultimately show ?thesis by blast
  qed
qed

lemma eventsFrom_no_complete: "\<not> list_ex isComplete (eventsFrom fetch cheerio keyword n i snapshots)"
  by (induction snapshots arbitrary: i) (auto simp: iterationEvents_def list_ex_iff)

lemma eventsFrom_numbers:
  "list_all (\<lambda>e. snapshotNumber e \<le> i + length snapshots)
     (eventsFrom fetch cheerio keyword n i snapshots)"
proof (induction snapshots arbitrary: i)
  case Nil
  show ?case by simp
next
  case (Cons s rest)
  have "list_all (\<lambda>e. snapshotNumber e \<le> i + 1 + length rest)
     (eventsFrom fetch cheerio keyword n (i + 1) rest)" by (rule Cons.IH)
  then show ?case
    by (auto simp: iterationEvents_def list_all_iff)
qed





text \<open>
  Unfolding the model on a concrete page.
\<close>

lemmas eval_simps = scanZones_def matchLoop.simps commentLoop.simps exec_def commentExec_def
  includesStr_def mkMatch_def textSnippet_def jsSnippet_def commentSnippet_def substring_def
  trim_def newlinesToSpaces_def isSpace_def charCode_def canonicalize_def Let_def

text \<open>
  An object timestamp with a key \<^verbatim>\<open>toString\<close> makes the template literal of the first
  iteration raise: the stream ends with the error event.
\<close>

lemma object_timestamp_raises:
  "scan alwaysConnected objectTimestampIndex pageWithScriptInHead parsedPages
     ''example.com'' None ''key'' 100 =
   \<lparr>written =
      [Progress ''Contacting Wayback Machine for: example.com...'' None None,
       Progress (''Analyzing 1 snapshots for '' @ [CHR 0x27] @ ''key'' @ [CHR 0x27] @ ''...'')
         (Some 0) (Some 1),
       Error TypeError],
    ended = True\<rparr>"
  by code_simp

section \<open>The claims\<close>




text \<open>
  C2. When the flag is first seen cleared at the top of iteration \<open>k\<close>, the stream holds
  the two opening progress events, the events of the first \<open>j\<close> snapshots for some \<open>j\<close>
  up to \<open>k\<close> (they render), and at most one error event behind them: no event of snapshot \<open>k\<close> or of
  a later one, and no \<^verbatim>\<open>complete\<close> event. When the snapshots before \<open>k\<close> all render,
  so that the loop reaches iteration \<open>k\<close> and sees the flag, the stream holds the two
  opening events and the events of the snapshots before \<open>k\<close>, nothing else, and it is
  not ended by the handler.
\<close>

theorem disconnect_stops_the_stream:
  assumes "fetchSnapshots fetchIndex targetDomain targetYear snapshotLimit = Inr snapshots"
    and "k < length snapshots"
    and "\<not> clientConnected k" and "\<forall>j<k. clientConnected j"
  shows "(list_all renders (take k snapshots) \<longrightarrow>
            scan clientConnected fetchIndex fetch cheerio targetDomain targetYear searchKeyword
              snapshotLimit =
            \<lparr>written =
               [Progress (''Contacting Wayback Machine for: '' @ targetDomain @ ''...'') None None,
                Progress (''Analyzing '' @ showNat (length snapshots) @ '' snapshots for ''
                            @ [CHR 0x27] @ searchKeyword @ [CHR 0x27] @ ''...'')
                  (Some 0) (Some (length snapshots))]
               @ eventsFrom fetch cheerio searchKeyword (length snapshots) 0 (take k snapshots),
             ended = False\<rparr>) \<and>
         (\<exists>j\<le>k. \<exists>tail.
            list_all renders (take j snapshots) \<and>
            written (scan clientConnected fetchIndex fetch cheerio targetDomain targetYear
              searchKeyword snapshotLimit) =
              [Progress (''Contacting Wayback Machine for: '' @ targetDomain @ ''...'') None None,
               Progress (''Analyzing '' @ showNat (length snapshots) @ '' snapshots for ''
                           @ [CHR 0x27] @ searchKeyword @ [CHR 0x27] @ ''...'')
                 (Some 0) (Some (length snapshots))]
              @ eventsFrom fetch cheerio searchKeyword (length snapshots) 0 (take j snapshots)
              @ tail \<and>
            (tail = [] \<or> (\<exists>e. tail = [Error e]))) \<and>
         \<not> list_ex isComplete (written (scan clientConnected fetchIndex fetch cheerio targetDomain
             targetYear searchKeyword snapshotLimit)) \<and>
         list_all (\<lambda>e. snapshotNumber e \<le> k) (written (scan clientConnected fetchIndex fetch cheerio
             targetDomain targetYear searchKeyword snapshotLimit))"
proof -
  let ?scan = "scan clientConnected fetchIndex fetch cheerio targetDomain targetYear searchKeyword
              snapshotLimit"
  let ?n = "length snapshots"
  let ?opening = "[Progress (''Contacting Wayback Machine for: '' @ targetDomain @ ''...'') None None,
                Progress (''Analyzing '' @ showNat ?n @ '' snapshots for ''
                            @ [CHR 0x27] @ searchKeyword @ [CHR 0x27] @ ''...'')
                  (Some 0) (Some ?n)]"
  let ?r = "\<lparr>written = ?opening, ended = False\<rparr>"
  let ?ev = "\<lambda>j. eventsFrom fetch cheerio searchKeyword ?n 0 (take j snapshots)"
  from assms(2) have ne: "snapshots \<noteq> []" by auto
  have sc: "?scan =
      (case forLoop clientConnected fetch cheerio searchKeyword ?n snapshots 0 False ?r of
         Disconnected r \<Rightarrow> r
       | Raised e r \<Rightarrow> endStream (sendProgress r (Error e))
       | Finished foundAny r \<Rightarrow>
           endStream (sendProgress r
             (Complete (if foundAny then ''Scan complete.''
                        else ''Scan finished. No matches found.''))))"
    using ne by (simp add: scan_def assms(1) sendProgress_def Let_def)
  have exact: "?scan = \<lparr>written = ?opening @ ?ev k, ended = False\<rparr>"
    if "list_all renders (take k snapshots)"
    using forLoop_disconnected [of k snapshots clientConnected 0 fetch cheerio searchKeyword ?n False ?r]
      assms(2-4) that
    by (simp add: sc)
  from forLoop_prefix [of k snapshots clientConnected 0 fetch cheerio searchKeyword ?n False ?r]
    assms(2-4)
  obtain j where j: "j \<le> k" and rj: "list_all renders (take j snapshots)"
    and out: "forLoop clientConnected fetch cheerio searchKeyword ?n snapshots 0 False ?r =
             Disconnected (?r\<lparr>written := written ?r @ ?ev j\<rparr>) \<or>
           (\<exists>e. forLoop clientConnected fetch cheerio searchKeyword ?n snapshots 0 False ?r =
             Raised e (?r\<lparr>written := written ?r @ ?ev j\<rparr>))"
    by auto
  from out obtain tail where tail: "written ?scan = ?opening @ ?ev j @ tail"
    "tail = [] \<or> (\<exists>e. tail = [Error e])"
  proof
    assume "forLoop clientConnected fetch cheerio searchKeyword ?n snapshots 0 False ?r =
             Disconnected (?r\<lparr>written := written ?r @ ?ev j\<rparr>)"
    then have "written ?scan = ?opening @ ?ev j @ []" by (simp add: sc)
    then show ?thesis using that by blast
  next
    assume "\<exists>e. forLoop clientConnected fetch cheerio searchKeyword ?n snapshots 0 False ?r =
             Raised e (?r\<lparr>written := written ?r @ ?ev j\<rparr>)"
    then obtain e where "forLoop clientConnected fetch cheerio searchKeyword ?n snapshots 0 False ?r =
             Raised e (?r\<lparr>written := written ?r @ ?ev j\<rparr>)" by blast
    then have "written ?scan = ?opening @ ?ev j @ [Error e]"
      by (simp add: sc sendProgress_def endStream_def)
    then show ?thesis using that by blast
  qed
  have nc: "\<not> list_ex isComplete (?ev j)" by (rule eventsFrom_no_complete)
  have "list_all (\<lambda>e. snapshotNumber e \<le> 0 + length (take j snapshots)) (?ev j)"
    by (rule eventsFrom_numbers)
  then have nums: "list_all (\<lambda>e. snapshotNumber e \<le> k) (?ev j)"
    using j assms(2) by (simp add: list_all_iff min_def) force
  have 3: "\<not> list_ex isComplete (written ?scan)"
    using nc tail by (auto simp: list_ex_iff)
  have 4: "list_all (\<lambda>e. snapshotNumber e \<le> k) (written ?scan)"
    using nums tail by (auto simp: list_all_iff)
  from exact j rj tail 3 4 show ?thesis by blast
qed

theorem disconnect_stops_the_stream_witness:
  "scan connectedOnce twoSnapshotIndex pageWithScriptInHead parsedPages
     ''example.com'' None ''key'' 100 =
   \<lparr>written =
      [Progress ''Contacting Wayback Machine for: example.com...'' None None,
       Progress (''Analyzing 2 snapshots for '' @ [CHR 0x27] @ ''key'' @ [CHR 0x27] @ ''...'')
         (Some 0) (Some 2),
       Progress ''Scanning snapshot: 2020...'' (Some 1) (Some 2),
       Match \<lparr>scan_match.timestamp = JStr ''2020'',
               archiveUrl = ''https://web.archive.org/web/2020/http://example.com/'',
               matchType = TEXT, snippet = ''...Hello key...''\<rparr>,
       Match \<lparr>scan_match.timestamp = JStr ''2020'',
               archiveUrl = ''https://web.archive.org/web/2020/http://example.com/'',
               matchType = JS, snippet = ''...var key = 1;...''\<rparr>,
       Match \<lparr>scan_match.timestamp = JStr ''2020'',
               archiveUrl = ''https://web.archive.org/web/2020/http://example.com/'',
               matchType = COMMENT, snippet = ''...the key...''\<rparr>],
    ended = False\<rparr>"
proof -
  let ?snaps = "[\<lparr>snapshot.timestamp = JStr ''2020'', original = JStr ''http://example.com/''\<rparr>,
                 \<lparr>snapshot.timestamp = JStr ''2021'', original = JStr ''http://example.com/''\<rparr>]"
  have h1: "fetchSnapshots twoSnapshotIndex ''example.com'' None 100 = Inr ?snaps"
    by (simp add: fetchSnapshots_def fetchSnapshotsTry_def element_def twoSnapshotIndex_def)
  have h2: "1 < length ?snaps" by simp
  have h3: "\<not> connectedOnce 1" by (simp add: connectedOnce_def)
  have h4: "\<forall>j<1. connectedOnce j" by (simp add: connectedOnce_def)
  have h5: "list_all renders (take 1 ?snaps)" by (simp add: renders_def)
  have ev: "\<lparr>written =
      [Progress (''Contacting Wayback Machine for: '' @ ''example.com'' @ ''...'') None None,
       Progress (''Analyzing '' @ showNat (length ?snaps) @ '' snapshots for ''
                   @ [CHR 0x27] @ ''key'' @ [CHR 0x27] @ ''...'')
         (Some 0) (Some (length ?snaps))]
      @ eventsFrom pageWithScriptInHead parsedPages ''key'' (length ?snaps) 0 (take 1 ?snaps),
      ended = False\<rparr> =
   \<lparr>written =
      [Progress ''Contacting Wayback Machine for: example.com...'' None None,
       Progress (''Analyzing 2 snapshots for '' @ [CHR 0x27] @ ''key'' @ [CHR 0x27] @ ''...'')
         (Some 0) (Some 2),
       Progress ''Scanning snapshot: 2020...'' (Some 1) (Some 2),
       Match \<lparr>scan_match.timestamp = JStr ''2020'',
               archiveUrl = ''https://web.archive.org/web/2020/http://example.com/'',
               matchType = TEXT, snippet = ''...Hello key...''\<rparr>,
       Match \<lparr>scan_match.timestamp = JStr ''2020'',
               archiveUrl = ''https://web.archive.org/web/2020/http://example.com/'',
               matchType = JS, snippet = ''...var key = 1;...''\<rparr>,
       Match \<lparr>scan_match.timestamp = JStr ''2020'',
               archiveUrl = ''https://web.archive.org/web/2020/http://example.com/'',
               matchType = COMMENT, snippet = ''...the key...''\<rparr>],
    ended = False\<rparr>"
    by code_simp
  note th = disconnect_stops_the_stream [OF h1 h2 h3 h4,
        of pageWithScriptInHead parsedPages "''key''", THEN conjunct1, rule_format, OF h5]
  show ?thesis by (rule trans [OF th ev])
qed

text \<open>
  C3, as the code has it. When the index returns no snapshot, the stream holds two
  events: the progress event that announces the request to the index, then the
  \<^verbatim>\<open>complete\<close> event with the message \<^verbatim>\<open>No snapshots found for this criteria.\<close>;
  then the stream is ended.
\<close>

theorem no_snapshots_two_events:
  assumes "fetchSnapshots fetchIndex targetDomain targetYear snapshotLimit = Inr []"
  shows "scan clientConnected fetchIndex fetch cheerio targetDomain targetYear searchKeyword
           snapshotLimit =
         \<lparr>written = [Progress (''Contacting Wayback Machine for: '' @ targetDomain @ ''...'') None None,
                     Complete ''No snapshots found for this criteria.''],
          ended = True\<rparr>"
  using assms by (simp add: scan_def sendProgress_def endStream_def)

theorem no_snapshots_two_events_witness:
  "fetchSnapshots (\<lambda>q. Inr (Response True 200 (Inr (JArr [])))) ''example.com'' None 100 = Inr [] \<and>
   scan (\<lambda>i. True) (\<lambda>q. Inr (Response True 200 (Inr (JArr [])))) (\<lambda>i u. Inl NetworkError)
     (\<lambda>h. \<lparr>bodyText = [], scripts = [], htmlString = []\<rparr>) ''example.com'' None ''key'' 100 =
   \<lparr>written = [Progress ''Contacting Wayback Machine for: example.com...'' None None,
               Complete ''No snapshots found for this criteria.''],
    ended = True\<rparr>"
proof -
  have h: "fetchSnapshots (\<lambda>q. Inr (Response True 200 (Inr (JArr [])))) ''example.com'' None 100 = Inr []"
    by (simp add: fetchSnapshots_def fetchSnapshotsTry_def)
  show ?thesis
    using h no_snapshots_two_events [OF h, of "\<lambda>i. True" "\<lambda>i u. Inl NetworkError"
        "\<lambda>h. \<lparr>bodyText = [], scripts = [], htmlString = []\<rparr>" "''key''"]
    by simp
qed

text \<open>C3, as stated, fails: the stream of a scan with no snapshot holds two events, not one.\<close>

theorem no_snapshots_counterexample:
  "fetchSnapshots emptyIndex ''example.com'' None 100 = Inr [] \<and>
   written (scan alwaysConnected emptyIndex noPage parsedExample ''example.com'' None ''key'' 100) =
     [Progress ''Contacting Wayback Machine for: example.com...'' None None,
      Complete ''No snapshots found for this criteria.'']"
  by (simp add: scan_def fetchSnapshots_def fetchSnapshotsTry_def sendProgress_def endStream_def
      emptyIndex_def)

text \<open>
  C4, as the code has it. \<open>fetchSnapshots\<close> never raises to its caller. It returns the
  empty sequence for every network failure, timeout, non-success status, body that is
  not JSON, JSON value that is not an array, and array with a row after the header that
  cannot be destructured, so that the caller cannot tell an unreachable index from a
  domain with no snapshots.
\<close>

theorem fetchSnapshots_never_throws:
  "(\<exists>snapshots. fetchSnapshots fetch domain year limit = Inr snapshots) \<and>
   (indexFailure (fetch (queryParams domain year limit)) \<longrightarrow>
      fetchSnapshots fetch domain year limit = Inr [])"
proof
  show "\<exists>snapshots. fetchSnapshots fetch domain year limit = Inr snapshots"
    by (cases "fetchSnapshotsTry fetch domain year limit") (simp_all add: fetchSnapshots_def)
  show "indexFailure (fetch (queryParams domain year limit)) \<longrightarrow>
      fetchSnapshots fetch domain year limit = Inr []"
  proof
    assume f: "indexFailure (fetch (queryParams domain year limit))"
    show "fetchSnapshots fetch domain year limit = Inr []"
    proof (cases "fetch (queryParams domain year limit)")
      case (Inl e)
      then show ?thesis by (simp add: fetchSnapshots_def fetchSnapshotsTry_def)
    next
      case (Inr r)
      show ?thesis
      proof (cases "ok r")
        case False
        with Inr show ?thesis by (simp add: fetchSnapshots_def fetchSnapshotsTry_def)
      next
        case True
        show ?thesis
        proof (cases "payload r")
          case (Inl e)
          with Inr True show ?thesis by (simp add: fetchSnapshots_def fetchSnapshotsTry_def)
        next
          case data: (Inr data)
          show ?thesis
          proof (cases data)
            case (JArr rows)
            with f Inr True data have "\<not> list_all iterable (drop 1 rows)"
              by (simp add: indexFailure_def)
            from mapRows_fails [OF this] Inr True data JArr show ?thesis
              by (simp add: fetchSnapshots_def fetchSnapshotsTry_def)
          qed (use Inr True data in \<open>simp_all add: fetchSnapshots_def fetchSnapshotsTry_def\<close>)
        qed
      qed
    qed
  qed
qed

theorem fetchSnapshots_never_throws_witness:
  "indexFailure (Inl TimeoutError) \<and>
   fetchSnapshots (\<lambda>q. Inl TimeoutError) ''example.com'' None 100 = Inr [] \<and>
   indexFailure (Inr (Response False 503 (Inr JNull))) \<and>
   fetchSnapshots (\<lambda>q. Inr (Response False 503 (Inr JNull))) ''example.com'' None 100 = Inr [] \<and>
   indexFailure (Inr (Response True 200 (Inl SyntaxError))) \<and>
   fetchSnapshots (\<lambda>q. Inr (Response True 200 (Inl SyntaxError))) ''example.com'' None 100 = Inr [] \<and>
   fetchSnapshots (\<lambda>q. Inr (Response True 200 (Inr (JArr [])))) ''example.com'' None 100 = Inr []"
proof -
  have a: "indexFailure (Inl TimeoutError)"
    and b: "indexFailure (Inr (Response False 503 (Inr JNull)))"
    and c: "indexFailure (Inr (Response True 200 (Inl SyntaxError)))"
    by (simp_all add: indexFailure_def)
  show ?thesis
    using a b c
      fetchSnapshots_never_throws [of "\<lambda>q. Inl TimeoutError" "''example.com''" None 100]
      fetchSnapshots_never_throws [of "\<lambda>q. Inr (Response False 503 (Inr JNull))" "''example.com''" None 100]
      fetchSnapshots_never_throws [of "\<lambda>q. Inr (Response True 200 (Inl SyntaxError))" "''example.com''" None 100]
    by (simp add: fetchSnapshots_def fetchSnapshotsTry_def)
qed

text \<open>
  C4, as stated, fails for a malformed response whose rows can be destructured: a row
  with the timestamp alone gives a snapshot, not the empty sequence.
\<close>

theorem malformed_rows_counterexample:
  "fetchSnapshots shortRowIndex ''example.com'' None 100 =
     Inr [\<lparr>snapshot.timestamp = JStr ''20200101000000'', original = JUndefined\<rparr>]"
  by (simp add: fetchSnapshots_def fetchSnapshotsTry_def element_def shortRowIndex_def)

text \<open>
  C5. The matches that the extractor returns are in the order of their occurrences:
  the result is the list of the matches of a list of occurrences that increases
  strictly in the order \<open>before\<close>, that is, all text matches by position, then all
  script matches by script and by position in the script, then all comment matches by
  comment and by position in the comment. Every occurrence lies in the document, and the
  comments are numbered in the order of their place in the serialized page.
\<close>

theorem matches_in_zone_and_position_order:
  "\<exists>occs. extractData cheerio html keyword ts url =
             Some (map (matchOf (cheerio html) keyword ts url) occs) \<and>
          sorted_wrt before occs \<and>
          list_all (inDocument (cheerio html)) occs \<and>
          sorted_wrt (<) (map fst (commentSpans (htmlString (cheerio html)) 0))"
proof -
  let ?re = "map Lit keyword" and ?doc = "cheerio html"
  let ?occs = "docOccs ?re ?doc TEXT @ docOccs ?re ?doc JS @ docOccs ?re ?doc COMMENT"
  have 1: "extractData cheerio html keyword ts url = Some (map (matchOf ?doc keyword ts url) ?occs)"
    by (simp add: extractData_literal scanZones_parts textMatches_occs jsMatches_occs
        commentMatches_occs)
  have cross: "\<forall>a \<in> set (docOccs ?re ?doc z). \<forall>b \<in> set (docOccs ?re ?doc z'). before a b"
    if "zoneRank z < zoneRank z'" for z z'
  proof (intro ballI)
    fix a b assume "a \<in> set (docOccs ?re ?doc z)" "b \<in> set (docOccs ?re ?doc z')"
    then have "fst a = z" "fst b = z'" by (auto dest: docOccs_mem(1))
    then show "before a b" using that by (rule before_zones)
  qed
  have tj: "\<forall>a \<in> set (docOccs ?re ?doc TEXT). \<forall>b \<in> set (docOccs ?re ?doc JS). before a b"
    by (rule cross) simp
  have tc: "\<forall>a \<in> set (docOccs ?re ?doc TEXT). \<forall>b \<in> set (docOccs ?re ?doc COMMENT). before a b"
    by (rule cross) simp
  have jc: "\<forall>a \<in> set (docOccs ?re ?doc JS). \<forall>b \<in> set (docOccs ?re ?doc COMMENT). before a b"
    by (rule cross) simp
  have 2: "sorted_wrt before ?occs"
    using tj tc jc by (simp add: sorted_wrt_append docOccs_sorted) blast
  have 3: "list_all (inDocument ?doc) ?occs"
    by (auto simp: list_all_iff dest: docOccs_mem(2))
  from 1 2 3 commentSpans_sorted show ?thesis by blast
qed

theorem matches_in_zone_and_position_order_witness:
  "(\<exists>occs. extractData (\<lambda>h. examplePage) ''page'' ''key'' (JStr ''2020'') ''u'' =
             Some (map (matchOf examplePage ''key'' (JStr ''2020'') ''u'') occs) \<and>
          sorted_wrt before occs \<and>
          list_all (inDocument examplePage) occs \<and>
          sorted_wrt (<) (map fst (commentSpans (htmlString examplePage) 0))) \<and>
   map_option (map matchType)
     (extractData (\<lambda>h. examplePage) ''page'' ''key'' (JStr ''2020'') ''u'') =
     Some [TEXT, JS, COMMENT]"
proof -
  have "map_option (map matchType)
     (extractData (\<lambda>h. examplePage) ''page'' ''key'' (JStr ''2020'') ''u'') =
     Some [TEXT, JS, COMMENT]"
    by code_simp
  with matches_in_zone_and_position_order
    [of "\<lambda>h. examplePage" "''page''" "''key''" "JStr ''2020''" "''u''"]
  show ?thesis by simp
qed

text \<open>
  C6. The snippet of a match is cut from 30 characters before the occurrence to 30
  characters after it and put between ellipsis markers; a script's snippet has its
  newlines replaced by spaces. A comment's snippet is only trimmed: on a comment of
  three lines with the keyword on the second, the snippet keeps both newlines, where the
  snippet of a script with the same body has none (\<open>textSnippet_no_newline\<close> and
  \<open>jsSnippet_no_newline\<close>: no snippet of the other two zones holds a newline).
\<close>

theorem comment_snippet_keeps_newlines:
  "extractData
     (\<lambda>h. \<lparr>bodyText = [], scripts = [''a'' @ [CHR 0x0A] @ ''key'' @ [CHR 0x0A] @ ''b''],
            htmlString = ''<!--a'' @ [CHR 0x0A] @ ''key'' @ [CHR 0x0A] @ ''b-->''\<rparr>)
     ''page'' ''key'' (JStr ''2020'') ''u'' =
   Some [\<lparr>scan_match.timestamp = JStr ''2020'', archiveUrl = ''u'', matchType = JS,
           snippet = ''...a key b...''\<rparr>,
         \<lparr>scan_match.timestamp = JStr ''2020'', archiveUrl = ''u'', matchType = COMMENT,
           snippet = ''...a'' @ [CHR 0x0A] @ ''key'' @ [CHR 0x0A] @ ''b...''\<rparr>]"
  by code_simp

text \<open>
  C7. A zone that consists only of adjacent occurrences of a non-empty keyword, each up
  to the case of letters, is searched to the end: the loop returns, with one match for
  each occurrence, at the positions 0, \<open>length keyword\<close>, \<open>2 * length keyword\<close> and so
  on. For the zone \<^verbatim>\<open>aaa\<close> and the keyword \<^verbatim>\<open>a\<close> these are exactly 3 matches.
\<close>

theorem adjacent_occurrences_matched_once_each:
  assumes "keyword \<noteq> []"
    and "\<forall>w \<in> set ws. map canonicalize w = map canonicalize keyword"
  shows "\<exists>re. newRegExp (escapeKeyword keyword) = Some re \<and>
           matchLoop re (concat ws) mk 0 [] = map (\<lambda>j. mk (j * length keyword)) [0..<length ws]"
  using matchIndices_blocks [OF assms, of "[]"]
  by (simp add: newRegExp_escapeKeyword matchLoop_indices comp_def)

theorem adjacent_occurrences_matched_once_each_witness:
  "concat [''a'', ''a'', ''a''] = ''aaa'' \<and>
   (\<exists>re. newRegExp (escapeKeyword ''a'') = Some re \<and>
      matchLoop re ''aaa'' (mkMatch TEXT textSnippet ''aaa'' ''a'' JNull []) 0 [] =
        [mkMatch TEXT textSnippet ''aaa'' ''a'' JNull [] 0,
         mkMatch TEXT textSnippet ''aaa'' ''a'' JNull [] 1,
         mkMatch TEXT textSnippet ''aaa'' ''a'' JNull [] 2])"
proof -
  have h1: "''a'' \<noteq> []" by simp
  have h2: "\<forall>w \<in> set [''a'', ''a'', ''a'']. map canonicalize w = map canonicalize ''a''"
    by (simp add: canonicalize_def charCode_def)
  have three: "[0..<length [''a'', ''a'', ''a'']] = [0, 1, 2]"
    by (simp add: upt_rec)
  show ?thesis
    using adjacent_occurrences_matched_once_each
      [OF h1 h2, of "mkMatch TEXT textSnippet ''aaa'' ''a'' JNull []"]
    unfolding three by simp
qed

text \<open>
  C8. A keyword that holds regex metacharacters is searched as literal text in all three
  zones: for every keyword and every page, the pattern built from the escaped keyword
  is the sequence of the keyword's characters as literals, it matches at a position
  exactly when the keyword stands there up to the case of letters, and the result of
  \<open>extractData\<close> is the result of the literal search \<open>literalMatches\<close> in the text zone,
  the scripts and the comments, every position of which is an occurrence of the keyword
  up to the case of letters. So the keyword \<^verbatim>\<open>a.b\<close> matches \<^verbatim>\<open>a.b\<close> and \<^verbatim>\<open>A.B\<close>
  in each zone and does not match \<^verbatim>\<open>axb\<close>, which the pattern of the keyword left
  unescaped would match.
\<close>

theorem keyword_literal_in_every_zone:
  "newRegExp (escapeKeyword keyword) = Some (map Lit keyword) \<and>
   (\<forall>s. matchHere (map Lit keyword) s = literalHere keyword s) \<and>
   extractData cheerio html keyword ts url =
     Some (literalMatches (cheerio html) keyword ts url) \<and>
   (\<forall>s start. \<forall>p \<in> set (literalPositions keyword s start). literalHere keyword (drop p s))"
  by (simp add: newRegExp_escapeKeyword extractData_literal matchHere_literal scanZones_literal
      literalPositions_literal)

theorem keyword_literal_in_every_zone_witness:
  "extractData
     (\<lambda>h. \<lparr>bodyText = ''axb a.b'', scripts = [''axb A.B''], htmlString = ''<!--axb a.B-->''\<rparr>)
     [] ''a.b'' (JStr ''2020'') ''u'' =
     Some [\<lparr>scan_match.timestamp = JStr ''2020'', archiveUrl = ''u'', matchType = TEXT,
             snippet = ''...axb a.b...''\<rparr>,
           \<lparr>scan_match.timestamp = JStr ''2020'', archiveUrl = ''u'', matchType = JS,
             snippet = ''...axb A.B...''\<rparr>,
           \<lparr>scan_match.timestamp = JStr ''2020'', archiveUrl = ''u'', matchType = COMMENT,
             snippet = ''...axb a.B...''\<rparr>] \<and>
   literalPositions ''a.b'' ''axb a.b'' 0 = [4] \<and>
   \<not> matchHere (map Lit ''a.b'') ''axb'' \<and> matchHere (map Lit ''a.b'') ''A.B'' \<and>
   newRegExp ''a.b'' = Some [Lit CHR ''a'', AnyChar, Lit CHR ''b''] \<and>
   matchHere [Lit CHR ''a'', AnyChar, Lit CHR ''b''] ''axb''"
proof -
  have lm: "literalMatches
      \<lparr>bodyText = ''axb a.b'', scripts = [''axb A.B''], htmlString = ''<!--axb a.B-->''\<rparr>
      ''a.b'' (JStr ''2020'') ''u'' =
     [\<lparr>scan_match.timestamp = JStr ''2020'', archiveUrl = ''u'', matchType = TEXT,
             snippet = ''...axb a.b...''\<rparr>,
           \<lparr>scan_match.timestamp = JStr ''2020'', archiveUrl = ''u'', matchType = JS,
             snippet = ''...axb A.B...''\<rparr>,
           \<lparr>scan_match.timestamp = JStr ''2020'', archiveUrl = ''u'', matchType = COMMENT,
             snippet = ''...axb a.B...''\<rparr>]"
    by code_simp
  have rest: "literalPositions ''a.b'' ''axb a.b'' 0 = [4] \<and>
   \<not> matchHere (map Lit ''a.b'') ''axb'' \<and> matchHere (map Lit ''a.b'') ''A.B'' \<and>
   newRegExp ''a.b'' = Some [Lit CHR ''a'', AnyChar, Lit CHR ''b''] \<and>
   matchHere [Lit CHR ''a'', AnyChar, Lit CHR ''b''] ''axb''"
    by code_simp
  note th = keyword_literal_in_every_zone
    [of "''a.b''"
        "\<lambda>h. \<lparr>bodyText = ''axb a.b'', scripts = [''axb A.B''], htmlString = ''<!--axb a.B-->''\<rparr>"
        "[]" "JStr ''2020''" "''u''", THEN conjunct2, THEN conjunct2, THEN conjunct1,
        unfolded lm]
  from th rest show ?thesis by (rule conjI)
qed

text \<open>
  C9, as the code has it. \<open>fetchSnapshots\<close> copies the fields and checks nothing: every
  snapshot of the returned sequence has a non-empty timestamp and a non-empty original
  URL whenever every row after the header of the response starts with two non-empty
  strings.
\<close>

theorem snapshots_nonempty_when_rows_are:
  assumes "fetch (queryParams domain year limit) = Inr r" and "ok r"
    and "payload r = Inr (JArr (header # rows))" and "list_all nonEmptyRow rows"
  shows "\<exists>snapshots. fetchSnapshots fetch domain year limit = Inr snapshots \<and>
           length snapshots = length rows \<and>
           list_all (\<lambda>s. nonEmptyString (snapshot.timestamp s) \<and> nonEmptyString (original s))
             snapshots"
proof (cases rows)
  case Nil
  with assms show ?thesis by (simp add: fetchSnapshots_def fetchSnapshotsTry_def)
next
  case (Cons row rest)
  from mapRows_nonEmpty [OF assms(4)] obtain ss where "mapRows rows = Inr ss"
    "length ss = length rows"
    "list_all (\<lambda>s. nonEmptyString (snapshot.timestamp s) \<and> nonEmptyString (original s)) ss"
    by blast
  with assms Cons show ?thesis by (simp add: fetchSnapshots_def fetchSnapshotsTry_def)
qed

theorem snapshots_nonempty_when_rows_are_witness:
  "fetchSnapshots
     (\<lambda>q. Inr (Response True 200
        (Inr (JArr [JArr [JStr ''timestamp'', JStr ''original''],
                    JArr [JStr ''20200101000000'', JStr ''http://example.com/'']]))))
     ''example.com'' None 100 =
   Inr [\<lparr>snapshot.timestamp = JStr ''20200101000000'', original = JStr ''http://example.com/''\<rparr>] \<and>
   list_all nonEmptyRow [JArr [JStr ''20200101000000'', JStr ''http://example.com/'']]"
proof -
  have 4: "list_all nonEmptyRow [JArr [JStr ''20200101000000'', JStr ''http://example.com/'']]"
    by (simp add: nonEmptyRow_def nonEmptyString_def element_def)
  show ?thesis
    using 4 snapshots_nonempty_when_rows_are
      [of "\<lambda>q. Inr (Response True 200
        (Inr (JArr [JArr [JStr ''timestamp'', JStr ''original''],
                    JArr [JStr ''20200101000000'', JStr ''http://example.com/'']])))"
          "''example.com''" None 100 
          "Response True 200
        (Inr (JArr [JArr [JStr ''timestamp'', JStr ''original''],
                    JArr [JStr ''20200101000000'', JStr ''http://example.com/'']]))"
          "JArr [JStr ''timestamp'', JStr ''original'']"
          "[JArr [JStr ''20200101000000'', JStr ''http://example.com/'']]", OF refl _ _ 4]
    by (simp add: fetchSnapshots_def fetchSnapshotsTry_def element_def)
qed

text \<open>
  C9, as stated, fails: a row of two empty strings gives a snapshot whose two fields are
  empty.
\<close>

theorem empty_fields_counterexample:
  "fetchSnapshots emptyFieldsIndex ''example.com'' None 100 =
     Inr [\<lparr>snapshot.timestamp = JStr [], original = JStr []\<rparr>] \<and>
   \<not> nonEmptyString (JStr [])"
  by (simp add: fetchSnapshots_def fetchSnapshotsTry_def element_def nonEmptyString_def
      emptyFieldsIndex_def)

text \<open>
  C10. No comment match comes from an archive comment: the comment matches of the
  result are exactly the matches found by searching, in order, the bodies of the
  comments of the serialized page that do not hold the marker \<^verbatim>\<open>FILE ARCHIVED ON\<close>.
  A keyword inside an archive comment gives no match.
\<close>

theorem archive_comments_are_never_searched:
  "map_option (filter (\<lambda>m. matchType m = COMMENT)) (extractData cheerio html keyword ts url) =
     Some (concat (map (\<lambda>c. matchLoop (map Lit keyword) c
                               (mkMatch COMMENT commentSnippet c keyword ts url) 0 [])
                     (filter (\<lambda>c. \<not> includesStr c ''FILE ARCHIVED ON'')
                        (commentBodies (htmlString (cheerio html))))))"
proof -
  let ?re = "map Lit keyword" and ?doc = "cheerio html"
  have t: "filter (\<lambda>m. matchType m = COMMENT) (textMatches ?re ?doc keyword ts url) = []"
    by (auto simp: filter_empty_conv dest: matchType_text)
  have j: "filter (\<lambda>m. matchType m = COMMENT) (jsMatches ?re ?doc keyword ts url) = []"
    by (auto simp: filter_empty_conv dest: matchType_js)
  have c: "filter (\<lambda>m. matchType m = COMMENT) (commentMatches ?re ?doc keyword ts url) =
      commentMatches ?re ?doc keyword ts url"
    by (auto simp: filter_id_conv dest: matchType_comment)
  show ?thesis
    by (simp add: extractData_literal scanZones_parts t j c)
      (simp add: commentMatches_def matchLoop_indices isArchiveComment_def)
qed

theorem archive_comments_are_never_searched_witness:
  "map_option (filter (\<lambda>m. matchType m = COMMENT))
     (extractData (\<lambda>h. examplePage) ''page'' ''key'' (JStr ''2020'') ''u'') =
   Some [\<lparr>scan_match.timestamp = JStr ''2020'', archiveUrl = ''u'', matchType = COMMENT,
           snippet = ''...the KEY...''\<rparr>] \<and>
   commentBodies (htmlString examplePage) = ['' the KEY '', '' FILE ARCHIVED ON key '']"
proof -
  have b: "commentBodies (htmlString examplePage) = ['' the KEY '', '' FILE ARCHIVED ON key '']"
    by code_simp
  have rhs: "concat (map (\<lambda>c. matchLoop (map Lit ''key'') c
                               (mkMatch COMMENT commentSnippet c ''key'' (JStr ''2020'') ''u'') 0 [])
                     (filter (\<lambda>c. \<not> includesStr c ''FILE ARCHIVED ON'')
                        (commentBodies (htmlString examplePage)))) =
           [\<lparr>scan_match.timestamp = JStr ''2020'', archiveUrl = ''u'', matchType = COMMENT,
           snippet = ''...the KEY...''\<rparr>]"
    by code_simp
  note th = archive_comments_are_never_searched
    [of "\<lambda>h. examplePage" "''page''" "''key''" "JStr ''2020''" "''u''", unfolded rhs]
  from th b show ?thesis by (rule conjI)
qed

end
